theory Spec2Isabelle
  imports Complex_Main
begin

section \<open>Data model (src/src/lib/OfflineStorageHandler.ts)\<close>

text \<open>
  JavaScript values are modelled as follows.
  \<^item> A \<open>Date\<close> is its time value, an \<open>int\<close> (milliseconds since the epoch).
  \<^item> Primary keys produced by the \<open>++id\<close> key generator are \<open>nat\<close>.
  \<^item> Directory-service ids are \<open>int\<close>; other numbers (seconds, sizes) are \<open>real\<close>.
  \<^item> An optional property \<open>f?: T\<close> is a field of type \<open>T option\<close>, \<open>None\<close> for \<open>undefined\<close>.
  \<^item> The three type operators of the source, \<open>OmitId\<close>, \<open>RequireId\<close> and the plain
    type with \<open>id?: number\<close>, are a record of all the other properties, that record
    paired with its key, and that record paired with an optional key.
\<close>

type_synonym date = int
type_synonym number = real

type_synonym 'a OmitId = 'a
type_synonym 'a RequireId = "nat \<times> 'a"
type_synonym 'a OptionalId = "nat option \<times> 'a"

record Destination =
  d_name :: string
  d_type :: "string option"
  d_address :: string
  d_split :: "number option"

record ValueModel =
  vm_type :: string
  vm_method :: "string option"
  vm_suggested :: "string option"

record Value =
  v_model :: ValueModel
  v_destinations :: "Destination list"

datatype status = New | Processed

record Podcast =
  p_status :: status
  p_feedUrl :: string
  p_alternateFeedUrls :: "string list option"
  p_lastBuildDate :: "date option"
  p_lastItemPubDate :: "date option"
  p_firstItemPubDate :: "date option"
  p_title :: "string option"
  p_description :: "string option"
  p_link :: "string option"
  p_imageUrl :: "string option"
  p_subscribed :: bool
  p_podcastIndexOrgId :: "int option"
  p_podcastIndexOrgLastEpisodeFetch :: "date option"
  p_value :: "Value list option"

record Enclosure =
  enc_url :: string
  enc_length :: number
  enc_type :: string

record Episode =
  e_podcastId :: nat
  e_title :: "string option"
  e_link :: "string option"
  e_description :: "string option"
  e_imageUrl :: "string option"
  e_categories :: "string list option"
  e_pubDate :: "date option"
  e_enclosure :: "Enclosure option"
  e_duration :: "number option"
  e_guid :: "string option"
  e_podcastIndexOrgId :: int
  e_position :: "number option"
  e_lastTimeListened :: "date option"
  e_finished :: "bool option"

text \<open>
  \<open>RequireOnlyId<T>\<close>: the key, and every other property optional. A field that is
  \<open>None\<close> is a property absent from the object handed to \<open>update\<close>.
\<close>

record PodcastChanges =
  pc_id :: nat
  pc_status :: "status option"
  pc_feedUrl :: "string option"
  pc_alternateFeedUrls :: "string list option"
  pc_lastBuildDate :: "date option"
  pc_lastItemPubDate :: "date option"
  pc_firstItemPubDate :: "date option"
  pc_title :: "string option"
  pc_description :: "string option"
  pc_link :: "string option"
  pc_imageUrl :: "string option"
  pc_subscribed :: "bool option"
  pc_podcastIndexOrgId :: "int option"
  pc_podcastIndexOrgLastEpisodeFetch :: "date option"
  pc_value :: "Value list option"

record EpisodeChanges =
  ec_id :: nat
  ec_podcastId :: "nat option"
  ec_title :: "string option"
  ec_link :: "string option"
  ec_description :: "string option"
  ec_imageUrl :: "string option"
  ec_categories :: "string list option"
  ec_pubDate :: "date option"
  ec_enclosure :: "Enclosure option"
  ec_duration :: "number option"
  ec_guid :: "string option"
  ec_podcastIndexOrgId :: "int option"
  ec_position :: "number option"
  ec_lastTimeListened :: "date option"
  ec_finished :: "bool option"

datatype error = ConstraintError | FetchError

section \<open>The Dexie tables\<close>

text \<open>
  The class \<open>Database\<close> declares two object stores with the inbound, auto-incremented
  primary key \<open>++id\<close>. Dexie itself is a library outside the repository; its tables
  are modelled by what its documentation and the IndexedDB standard say of the
  operations the source calls. A table is the map from primary key to stored object
  (the object's \<open>id\<close> property is its key) and the current number of the key
  generator, which starts at 1.
\<close>

record 'a table =
  rows :: "nat \<Rightarrow> 'a option"
  nextKey :: nat

record database =
  podcasts :: "Podcast table"
  episodes :: "Episode table"

definition emptyTable :: "'a table" where
  "emptyTable = \<lparr>rows = (\<lambda>k. None), nextKey = 1\<rparr>"

text \<open>\<open>new Database()\<close> on a browser profile with no data.\<close>

definition newDatabase :: database where
  "newDatabase = \<lparr>podcasts = emptyTable, episodes = emptyTable\<rparr>"

text \<open>\<open>Table.toArray()\<close>: every object, in primary-key order.\<close>

definition toArray :: "'a table \<Rightarrow> 'a RequireId list" where
  "toArray t = List.map_filter (\<lambda>k. map_option (Pair k) (rows t k)) [0..<nextKey t]"

text \<open>
  A store operation with an explicit key at or above the generator's current number
  moves the generator past it; one with a generated key increments it.
\<close>

definition table_store :: "nat \<Rightarrow> 'a \<Rightarrow> 'a table \<Rightarrow> 'a table" where
  "table_store k v t = \<lparr>rows = (rows t)(k \<mapsto> v), nextKey = max (nextKey t) (Suc k)\<rparr>"

text \<open>\<open>Table.put(item)\<close>: insert, or replace the object that has the item's key.\<close>

definition table_put :: "'a OptionalId \<Rightarrow> 'a table \<Rightarrow> 'a table" where
  "table_put item t =
     (case fst item of
        Some k \<Rightarrow> table_store k (snd item) t
      | None \<Rightarrow> table_store (nextKey t) (snd item) t)"

text \<open>\<open>Table.bulkPut(items)\<close>: \<open>put\<close> for each item, in the order of the array.\<close>

definition bulkPut :: "'a OptionalId list \<Rightarrow> 'a table \<Rightarrow> 'a table" where
  "bulkPut items t = foldl (\<lambda>t item. table_put item t) t items"

text \<open>\<open>Table.delete(key)\<close>.\<close>

definition table_delete :: "nat \<Rightarrow> 'a table \<Rightarrow> 'a table" where
  "table_delete k t = t\<lparr>rows := (rows t)(k := None)\<rparr>"

text \<open>\<open>Collection.delete()\<close> for the collection of the objects that satisfy \<open>P\<close>.\<close>

definition delete_where :: "('a \<Rightarrow> bool) \<Rightarrow> 'a table \<Rightarrow> 'a table" where
  "delete_where P t =
     t\<lparr>rows := (\<lambda>k. case rows t k of None \<Rightarrow> None | Some r \<Rightarrow> if P r then None else Some r)\<rparr>"

text \<open>
  An index lists the objects whose key path holds a valid key, ordered by that key and,
  for equal keys, by primary key. The key path is a function to \<open>option\<close>, \<open>None\<close> where
  the property is absent.
\<close>

definition index_rows :: "('a \<Rightarrow> 'k::linorder option) \<Rightarrow> 'a table \<Rightarrow> 'a RequireId list" where
  "index_rows key t =
     sort_key (\<lambda>r. the (key (snd r))) (filter (\<lambda>r. key (snd r) \<noteq> None) (toArray t))"

text \<open>
  A \<open>Collection\<close> is the list of its objects in iteration order and the direction of
  the iteration, which \<open>sortBy\<close> reads.
\<close>

datatype direction = Forward | Backward

type_synonym 'a collection = "'a list \<times> direction"

text \<open>
  \<open>where(index).equals(v)\<close>: the objects with one and the same index key follow each
  other in primary-key order.
\<close>

definition where_equals :: "('a \<Rightarrow> 'k option) \<Rightarrow> 'k \<Rightarrow> 'a table \<Rightarrow> 'a RequireId collection" where
  "where_equals key v t = (filter (\<lambda>r. key (snd r) = Some v) (toArray t), Forward)"

definition where_belowOrEqual :: "('a \<Rightarrow> 'k::linorder option) \<Rightarrow> 'k \<Rightarrow> 'a table \<Rightarrow> 'a RequireId collection" where
  "where_belowOrEqual key v t = (filter (\<lambda>r. the (key (snd r)) \<le> v) (index_rows key t), Forward)"

definition where_aboveOrEqual :: "('a \<Rightarrow> 'k::linorder option) \<Rightarrow> 'k \<Rightarrow> 'a table \<Rightarrow> 'a RequireId collection" where
  "where_aboveOrEqual key v t = (filter (\<lambda>r. v \<le> the (key (snd r))) (index_rows key t), Forward)"

definition reverse :: "'a collection \<Rightarrow> 'a collection" where
  "reverse c = (rev (fst c), (if snd c = Forward then Backward else Forward))"

definition limit :: "nat \<Rightarrow> 'a collection \<Rightarrow> 'a collection" where
  "limit n c = (take n (fst c), snd c)"

definition collection_toArray :: "'a collection \<Rightarrow> 'a list" where
  "collection_toArray c = fst c"

definition first :: "'a collection \<Rightarrow> 'a option" where
  "first c = (case fst c of [] \<Rightarrow> None | x # _ \<Rightarrow> Some x)"

text \<open>
  \<open>Collection.sortBy(keyPath)\<close> reads the collection into an array and sorts the array
  with \<open>Array.prototype.sort\<close> and the comparison function
  \<open>(a, b) => aVal < bVal ? -order : aVal > bVal ? order : 0\<close>, where \<open>aVal\<close> and \<open>bVal\<close>
  are the values at the key path and \<open>order\<close> is 1 for a forward collection and -1 for
  a reversed one. In JavaScript \<open><\<close> and \<open>>\<close> are false when a side is \<open>undefined\<close>, so
  an object without the property compares 0 with every object.
\<close>

definition js_less :: "'k::linorder option \<Rightarrow> 'k option \<Rightarrow> bool" where
  "js_less aVal bVal =
     (case aVal of
        None \<Rightarrow> False
      | Some a \<Rightarrow> (case bVal of None \<Rightarrow> False | Some b \<Rightarrow> a < b))"

definition sorter :: "direction \<Rightarrow> ('a \<Rightarrow> 'k::linorder option) \<Rightarrow> 'a \<Rightarrow> 'a \<Rightarrow> int" where
  "sorter dir key a b =
     (let order = (if dir = Forward then 1 else - 1);
          aVal = key a;
          bVal = key b
      in if js_less aVal bVal then - order else if js_less bVal aVal then order else 0)"

text \<open>
  \<open>Array.prototype.sort(comparefn)\<close> is a stable sort: an element stays before the
  elements that follow it in the array unless \<open>comparefn\<close> puts it after them. The model
  is the insertion sort that puts each element, from the last one on, before the first
  element of the sorted rest that it is not greater than. Where \<open>comparefn\<close> is a
  consistent order, as it is for \<open>sortBy\<close> when all the objects have the property or
  none has, that is the result of every stable sort. Where some objects have the
  property and others do not, the standard leaves the order to the engine; the model
  is this insertion sort there too, which keeps each object without the property at its
  place.
\<close>

fun insertSorted :: "('a \<Rightarrow> 'a \<Rightarrow> int) \<Rightarrow> 'a \<Rightarrow> 'a list \<Rightarrow> 'a list" where
  "insertSorted comparefn x [] = [x]"
| "insertSorted comparefn x (y # ys) =
     (if comparefn x y \<le> 0 then x # y # ys else y # insertSorted comparefn x ys)"

definition array_sort :: "('a \<Rightarrow> 'a \<Rightarrow> int) \<Rightarrow> 'a list \<Rightarrow> 'a list" where
  "array_sort comparefn xs = foldr (insertSorted comparefn) xs []"

definition sortBy :: "('a \<Rightarrow> 'k::linorder option) \<Rightarrow> 'a collection \<Rightarrow> 'a list" where
  "sortBy key c = array_sort (sorter (snd c) key) (fst c)"

section \<open>OfflineStorageHandlerImplementation\<close>

text \<open>
  Every method is a function of the database. A method that can reject returns its
  outcome together with the database it leaves behind.
\<close>

text \<open>
  \<open>db.podcasts.add(podcast)\<close>. The schema declares \<open>&feedUrl\<close>, a unique index: the
  add is refused with a \<open>ConstraintError\<close> when the podcast brings a key that is
  taken or when another podcast has the feed URL, and then nothing is stored.
\<close>

definition store_addPodcast :: "Podcast OptionalId \<Rightarrow> database \<Rightarrow> (error + nat) \<times> database" where
  "store_addPodcast podcast db =
     (let t = podcasts db;
          k = (case fst podcast of Some k \<Rightarrow> k | None \<Rightarrow> nextKey t)
      in if (fst podcast \<noteq> None \<and> rows t k \<noteq> None)
            \<or> list_ex (\<lambda>r. p_feedUrl (snd r) = p_feedUrl (snd podcast)) (toArray t)
         then (Inl ConstraintError, db)
         else (Inr k, db\<lparr>podcasts := table_store k (snd podcast) t\<rparr>))"

definition applyPodcastChanges :: "PodcastChanges \<Rightarrow> Podcast \<Rightarrow> Podcast" where
  "applyPodcastChanges c p =
     \<lparr>p_status = (case pc_status c of Some v \<Rightarrow> v | None \<Rightarrow> p_status p),
      p_feedUrl = (case pc_feedUrl c of Some v \<Rightarrow> v | None \<Rightarrow> p_feedUrl p),
      p_alternateFeedUrls = (case pc_alternateFeedUrls c of Some v \<Rightarrow> Some v | None \<Rightarrow> p_alternateFeedUrls p),
      p_lastBuildDate = (case pc_lastBuildDate c of Some v \<Rightarrow> Some v | None \<Rightarrow> p_lastBuildDate p),
      p_lastItemPubDate = (case pc_lastItemPubDate c of Some v \<Rightarrow> Some v | None \<Rightarrow> p_lastItemPubDate p),
      p_firstItemPubDate = (case pc_firstItemPubDate c of Some v \<Rightarrow> Some v | None \<Rightarrow> p_firstItemPubDate p),
      p_title = (case pc_title c of Some v \<Rightarrow> Some v | None \<Rightarrow> p_title p),
      p_description = (case pc_description c of Some v \<Rightarrow> Some v | None \<Rightarrow> p_description p),
      p_link = (case pc_link c of Some v \<Rightarrow> Some v | None \<Rightarrow> p_link p),
      p_imageUrl = (case pc_imageUrl c of Some v \<Rightarrow> Some v | None \<Rightarrow> p_imageUrl p),
      p_subscribed = (case pc_subscribed c of Some v \<Rightarrow> v | None \<Rightarrow> p_subscribed p),
      p_podcastIndexOrgId = (case pc_podcastIndexOrgId c of Some v \<Rightarrow> Some v | None \<Rightarrow> p_podcastIndexOrgId p),
      p_podcastIndexOrgLastEpisodeFetch =
        (case pc_podcastIndexOrgLastEpisodeFetch c of Some v \<Rightarrow> Some v
         | None \<Rightarrow> p_podcastIndexOrgLastEpisodeFetch p),
      p_value = (case pc_value c of Some v \<Rightarrow> Some v | None \<Rightarrow> p_value p)\<rparr>"

text \<open>
  \<open>db.podcasts.update(podcast.id, podcast)\<close>: the changes are applied to the object
  with that key; with no such object nothing happens and the promise still resolves.
  A change of the feed URL to one that another podcast has breaks the unique index.
\<close>

definition store_updatePodcast :: "PodcastChanges \<Rightarrow> database \<Rightarrow> (error + unit) \<times> database" where
  "store_updatePodcast podcast db =
     (let t = podcasts db in
      case rows t (pc_id podcast) of
        None \<Rightarrow> (Inr (), db)
      | Some p \<Rightarrow>
          if list_ex (\<lambda>r. fst r \<noteq> pc_id podcast
                          \<and> p_feedUrl (snd r) = p_feedUrl (applyPodcastChanges podcast p)) (toArray t)
          then (Inl ConstraintError, db)
          else (Inr (), db\<lparr>podcasts := t\<lparr>rows := (rows t)(pc_id podcast \<mapsto> applyPodcastChanges podcast p)\<rparr>\<rparr>))"

definition store_deletePodcastById :: "nat \<Rightarrow> database \<Rightarrow> database" where
  "store_deletePodcastById podcastId db =
     (let db1 = db\<lparr>episodes := delete_where (\<lambda>e. e_podcastId e = podcastId) (episodes db)\<rparr>
      in db1\<lparr>podcasts := table_delete podcastId (podcasts db1)\<rparr>)"

definition store_getPodcasts :: "database \<Rightarrow> Podcast RequireId list" where
  "store_getPodcasts db = toArray (podcasts db)"

definition store_getPodcast :: "string \<Rightarrow> database \<Rightarrow> Podcast RequireId option" where
  "store_getPodcast feedUrl db = first (where_equals (\<lambda>p. Some (p_feedUrl p)) feedUrl (podcasts db))"

definition store_getPodcastById :: "nat \<Rightarrow> database \<Rightarrow> Podcast RequireId option" where
  "store_getPodcastById k db = map_option (Pair k) (rows (podcasts db) k)"

definition store_putEpisodes :: "Episode OptionalId list \<Rightarrow> database \<Rightarrow> database" where
  "store_putEpisodes eps db = db\<lparr>episodes := bulkPut eps (episodes db)\<rparr>"

definition applyEpisodeChanges :: "EpisodeChanges \<Rightarrow> Episode \<Rightarrow> Episode" where
  "applyEpisodeChanges c e =
     \<lparr>e_podcastId = (case ec_podcastId c of Some v \<Rightarrow> v | None \<Rightarrow> e_podcastId e),
      e_title = (case ec_title c of Some v \<Rightarrow> Some v | None \<Rightarrow> e_title e),
      e_link = (case ec_link c of Some v \<Rightarrow> Some v | None \<Rightarrow> e_link e),
      e_description = (case ec_description c of Some v \<Rightarrow> Some v | None \<Rightarrow> e_description e),
      e_imageUrl = (case ec_imageUrl c of Some v \<Rightarrow> Some v | None \<Rightarrow> e_imageUrl e),
      e_categories = (case ec_categories c of Some v \<Rightarrow> Some v | None \<Rightarrow> e_categories e),
      e_pubDate = (case ec_pubDate c of Some v \<Rightarrow> Some v | None \<Rightarrow> e_pubDate e),
      e_enclosure = (case ec_enclosure c of Some v \<Rightarrow> Some v | None \<Rightarrow> e_enclosure e),
      e_duration = (case ec_duration c of Some v \<Rightarrow> Some v | None \<Rightarrow> e_duration e),
      e_guid = (case ec_guid c of Some v \<Rightarrow> Some v | None \<Rightarrow> e_guid e),
      e_podcastIndexOrgId = (case ec_podcastIndexOrgId c of Some v \<Rightarrow> v | None \<Rightarrow> e_podcastIndexOrgId e),
      e_position = (case ec_position c of Some v \<Rightarrow> Some v | None \<Rightarrow> e_position e),
      e_lastTimeListened = (case ec_lastTimeListened c of Some v \<Rightarrow> Some v | None \<Rightarrow> e_lastTimeListened e),
      e_finished = (case ec_finished c of Some v \<Rightarrow> Some v | None \<Rightarrow> e_finished e)\<rparr>"

text \<open>\<open>db.episodes.update(episode.id, episode)\<close>; the episode table has no unique index.\<close>

definition store_updateEpisode :: "EpisodeChanges \<Rightarrow> database \<Rightarrow> database" where
  "store_updateEpisode episode db =
     (let t = episodes db in
      case rows t (ec_id episode) of
        None \<Rightarrow> db
      | Some e \<Rightarrow> db\<lparr>episodes := t\<lparr>rows := (rows t)(ec_id episode \<mapsto> applyEpisodeChanges episode e)\<rparr>\<rparr>)"

text \<open>\<open>where('podcastId').equals(podcastId).reverse().sortBy('pubDate')\<close>.\<close>

definition store_getEpisodes :: "nat \<Rightarrow> database \<Rightarrow> Episode RequireId list" where
  "store_getEpisodes podcastId db =
     sortBy (\<lambda>r. e_pubDate (snd r))
       (reverse (where_equals (\<lambda>e. Some (e_podcastId e)) podcastId (episodes db)))"

text \<open>
  \<open>where('pubDate').belowOrEqual(asOfPubDate).reverse().limit(count).toArray()\<close>;
  \<open>count\<close> is a number of rows, a natural number.
\<close>

definition store_getAllEpisodes :: "nat \<Rightarrow> date \<Rightarrow> database \<Rightarrow> Episode RequireId list" where
  "store_getAllEpisodes count asOfPubDate db =
     collection_toArray
       (limit count (reverse (where_belowOrEqual e_pubDate asOfPubDate (episodes db))))"

text \<open>\<open>where('position').aboveOrEqual(0).reverse().sortBy('lastTimeListened')\<close>.\<close>

definition store_getEpisodesInProgress :: "database \<Rightarrow> Episode RequireId list" where
  "store_getEpisodesInProgress db =
     sortBy (\<lambda>r. e_lastTimeListened (snd r))
       (reverse (where_aboveOrEqual e_position 0 (episodes db)))"

definition store_deleteDatabase :: "database \<Rightarrow> database" where
  "store_deleteDatabase db = newDatabase"

section \<open>The remote directory client\<close>

text \<open>
  Modelled from the spec: the module \<open>./PodcastindexOrgClient\<close> (the interface
  \<open>PodcastindexOrgClient\<close> and its \<open>Episode\<close> type) is imported by the controller and
  is not among the source files. The spec gives its two methods,
  \<open>getPodcastByFeedUrl(feedUrl) \<rightarrow> {id, title, description, link, imageUrl, value?}\<close> and
  \<open>getEpisodes(feedUrl) \<rightarrow> list of {id, title, link, description, pubDate (string),
  imageUrl, enclosure?{url,length,type}, guid}\<close>, each of which may reject. A client is
  what the directory answers at one moment: a function from the feed URL to a failure
  or the payload. \<open>pie_pubDate\<close> is the time value that \<open>new Date(pubDate)\<close> computes
  from the payload's text; a text that denotes no date, for which JavaScript builds an
  invalid \<open>Date\<close>, is outside the model.
\<close>

record PodcastIndexOrgPodcast =
  pip_id :: int
  pip_title :: string
  pip_description :: string
  pip_link :: string
  pip_imageUrl :: string
  pip_value :: "Value option"

record PodcastIndexOrgEpisode =
  pie_id :: int
  pie_title :: string
  pie_link :: string
  pie_description :: string
  pie_pubDate :: date
  pie_imageUrl :: string
  pie_enclosure :: "Enclosure option"
  pie_guid :: string

record PodcastindexOrgClient =
  getPodcastByFeedUrl :: "string \<Rightarrow> error + PodcastIndexOrgPodcast"
  getEpisodes :: "string \<Rightarrow> error + PodcastIndexOrgEpisode list"

section \<open>PodcastsControllerImplementation (src/unnamed/part_000)\<close>

record PodcastToAdd =
  a_feedUrl :: string
  a_title :: "string option"
  a_description :: "string option"
  a_imageUrl :: "string option"
  a_subscribed :: bool
  a_podcastIndexOrgId :: "int option"

text \<open>\<open>Omit<Episode, 'podcastId'>\<close> as \<open>mapPodcastIndexOrgEpisodeToStorage\<close> builds it: eight properties.\<close>

record MappedEpisode =
  me_title :: "string option"
  me_link :: "string option"
  me_description :: "string option"
  me_pubDate :: "date option"
  me_imageUrl :: "string option"
  me_enclosure :: "Enclosure option"
  me_guid :: "string option"
  me_podcastIndexOrgId :: int

definition mapPodcastIndexOrgEpisodeToStorage :: "PodcastIndexOrgEpisode \<Rightarrow> MappedEpisode" where
  "mapPodcastIndexOrgEpisodeToStorage podcastIndexOrgEpisode =
     \<lparr>me_title = Some (pie_title podcastIndexOrgEpisode),
      me_link = Some (pie_link podcastIndexOrgEpisode),
      me_description = Some (pie_description podcastIndexOrgEpisode),
      me_pubDate = Some (pie_pubDate podcastIndexOrgEpisode),
      me_imageUrl = Some (pie_imageUrl podcastIndexOrgEpisode),
      me_enclosure =
        (case pie_enclosure podcastIndexOrgEpisode of
           None \<Rightarrow> None
         | Some enc \<Rightarrow> Some \<lparr>enc_url = enc_url enc, enc_length = enc_length enc, enc_type = enc_type enc\<rparr>),
      me_guid = Some (pie_guid podcastIndexOrgEpisode),
      me_podcastIndexOrgId = pie_id podcastIndexOrgEpisode\<rparr>"

text \<open>\<open>{...mapped, podcastId: podcastId}\<close>: a new episode, with no key and no user data.\<close>

definition withPodcastId :: "MappedEpisode \<Rightarrow> nat \<Rightarrow> Episode OptionalId" where
  "withPodcastId m podcastId =
     (None,
      \<lparr>e_podcastId = podcastId,
       e_title = me_title m,
       e_link = me_link m,
       e_description = me_description m,
       e_imageUrl = me_imageUrl m,
       e_categories = None,
       e_pubDate = me_pubDate m,
       e_enclosure = me_enclosure m,
       e_duration = None,
       e_guid = me_guid m,
       e_podcastIndexOrgId = me_podcastIndexOrgId m,
       e_position = None,
       e_lastTimeListened = None,
       e_finished = None\<rparr>)"

text \<open>\<open>{...stored, ...mapped}\<close>: the eight mapped properties replace the stored ones.\<close>

definition spreadOver :: "Episode OptionalId \<Rightarrow> MappedEpisode \<Rightarrow> Episode OptionalId" where
  "spreadOver stored m =
     (fst stored,
      (snd stored)\<lparr>e_title := me_title m,
                   e_link := me_link m,
                   e_description := me_description m,
                   e_pubDate := me_pubDate m,
                   e_imageUrl := me_imageUrl m,
                   e_enclosure := me_enclosure m,
                   e_guid := me_guid m,
                   e_podcastIndexOrgId := me_podcastIndexOrgId m\<rparr>)"

definition noPodcastChanges :: "nat \<Rightarrow> PodcastChanges" where
  "noPodcastChanges k =
     \<lparr>pc_id = k, pc_status = None, pc_feedUrl = None, pc_alternateFeedUrls = None,
      pc_lastBuildDate = None, pc_lastItemPubDate = None, pc_firstItemPubDate = None,
      pc_title = None, pc_description = None, pc_link = None, pc_imageUrl = None,
      pc_subscribed = None, pc_podcastIndexOrgId = None,
      pc_podcastIndexOrgLastEpisodeFetch = None, pc_value = None\<rparr>"

definition noEpisodeChanges :: "nat \<Rightarrow> EpisodeChanges" where
  "noEpisodeChanges k =
     \<lparr>ec_id = k, ec_podcastId = None, ec_title = None, ec_link = None, ec_description = None,
      ec_imageUrl = None, ec_categories = None, ec_pubDate = None, ec_enclosure = None,
      ec_duration = None, ec_guid = None, ec_podcastIndexOrgId = None, ec_position = None,
      ec_lastTimeListened = None, ec_finished = None\<rparr>"

text \<open>
  \<open>addPodcast\<close>. Each \<open>await\<close> of a rejected promise ends the method with that
  rejection; what was stored before stays stored. \<open>now\<close> is the value of \<open>new Date()\<close>.
\<close>

definition ctrl_addPodcast ::
  "date \<Rightarrow> PodcastindexOrgClient \<Rightarrow> PodcastToAdd \<Rightarrow> database \<Rightarrow> (error + unit) \<times> database" where
  "ctrl_addPodcast now client podcast db =
     (case store_addPodcast
             (None,
              \<lparr>p_status = New,
               p_feedUrl = a_feedUrl podcast,
               p_alternateFeedUrls = None,
               p_lastBuildDate = None,
               p_lastItemPubDate = None,
               p_firstItemPubDate = None,
               p_title = a_title podcast,
               p_description = a_description podcast,
               p_link = None,
               p_imageUrl = a_imageUrl podcast,
               p_subscribed = a_subscribed podcast,
               p_podcastIndexOrgId = a_podcastIndexOrgId podcast,
               p_podcastIndexOrgLastEpisodeFetch = None,
               p_value = None\<rparr>) db of
        (Inl err, db1) \<Rightarrow> (Inl err, db1)
      | (Inr podcastId, db1) \<Rightarrow>
     (case getPodcastByFeedUrl client (a_feedUrl podcast) of
        Inl err \<Rightarrow> (Inl err, db1)
      | Inr podcastAtPodcastindexOrg \<Rightarrow>
     (case store_updatePodcast
             ((noPodcastChanges podcastId)
                \<lparr>pc_title := Some (pip_title podcastAtPodcastindexOrg),
                 pc_description := Some (pip_description podcastAtPodcastindexOrg),
                 pc_link := Some (pip_link podcastAtPodcastindexOrg),
                 pc_imageUrl := Some (pip_imageUrl podcastAtPodcastindexOrg),
                 pc_podcastIndexOrgId := Some (pip_id podcastAtPodcastindexOrg),
                 pc_value := (case pip_value podcastAtPodcastindexOrg of
                                None \<Rightarrow> None | Some v \<Rightarrow> Some [v])\<rparr>) db1 of
        (Inl err, db2) \<Rightarrow> (Inl err, db2)
      | (Inr _, db2) \<Rightarrow>
     (case getEpisodes client (a_feedUrl podcast) of
        Inl err \<Rightarrow> (Inl err, db2)
      | Inr eps \<Rightarrow>
          (let db3 = store_putEpisodes
                       (map (\<lambda>episode. withPodcastId (mapPodcastIndexOrgEpisodeToStorage episode) podcastId)
                          eps) db2
           in store_updatePodcast
                ((noPodcastChanges podcastId)
                   \<lparr>pc_status := Some Processed,
                    pc_podcastIndexOrgLastEpisodeFetch := Some now\<rparr>) db3)))))"

definition ctrl_deletePodcastById :: "nat \<Rightarrow> database \<Rightarrow> database" where
  "ctrl_deletePodcastById podcastId db = store_deletePodcastById podcastId db"

text \<open>\<open>title ? title : feedUrl\<close>: an absent title and the empty string are both falsy.\<close>

definition ctrl_getPodcasts :: "database \<Rightarrow> Podcast RequireId list" where
  "ctrl_getPodcasts db =
     map (\<lambda>storedPodcast.
            (fst storedPodcast,
             (snd storedPodcast)
               \<lparr>p_title := (case p_title (snd storedPodcast) of
                              None \<Rightarrow> Some (p_feedUrl (snd storedPodcast))
                            | Some t \<Rightarrow> if t = [] then Some (p_feedUrl (snd storedPodcast)) else Some t)\<rparr>))
       (store_getPodcasts db)"

definition ctrl_getPodcast :: "string \<Rightarrow> database \<Rightarrow> Podcast RequireId option" where
  "ctrl_getPodcast feedUrl db = store_getPodcast feedUrl db"

definition ctrl_getPodcastById :: "nat \<Rightarrow> database \<Rightarrow> Podcast RequireId option" where
  "ctrl_getPodcastById k db = store_getPodcastById k db"

text \<open>\<open>getEpisodes(feedUrl)\<close>; the result type \<open>EpisodeView[]\<close> is \<open>Episode[]\<close>, with \<open>id?\<close>.\<close>

definition ctrl_getEpisodes :: "string \<Rightarrow> database \<Rightarrow> Episode OptionalId list" where
  "ctrl_getEpisodes feedUrl db =
     (case store_getPodcast feedUrl db of
        Some podcast \<Rightarrow> map (\<lambda>r. (Some (fst r), snd r)) (store_getEpisodes (fst podcast) db)
      | None \<Rightarrow> [])"

text \<open>\<open>Array.prototype.findIndex\<close>, with \<open>None\<close> for \<open>-1\<close>.\<close>

fun findIndex :: "('a \<Rightarrow> bool) \<Rightarrow> 'a list \<Rightarrow> nat option" where
  "findIndex P [] = None"
| "findIndex P (x # xs) = (if P x then Some 0 else map_option Suc (findIndex P xs))"

text \<open>The callback of \<open>episodes.forEach\<close> in \<open>updatePodcasts\<close>, acting on \<open>storedEpisodes\<close>.\<close>

definition reconcileEpisode ::
  "nat \<Rightarrow> Episode OptionalId list \<Rightarrow> PodcastIndexOrgEpisode \<Rightarrow> Episode OptionalId list" where
  "reconcileEpisode podcastId storedEpisodes episode =
     (case findIndex (\<lambda>storedEpisode. e_podcastIndexOrgId (snd storedEpisode) = pie_id episode)
             storedEpisodes of
        Some matchIndex \<Rightarrow>
          storedEpisodes[matchIndex :=
            spreadOver (storedEpisodes ! matchIndex) (mapPodcastIndexOrgEpisodeToStorage episode)]
      | None \<Rightarrow>
          storedEpisodes @ [withPodcastId (mapPodcastIndexOrgEpisodeToStorage episode) podcastId])"

text \<open>
  The body of the loop of \<open>updatePodcasts\<close> for one podcast. \<open>putEpisodes\<close> is called
  without \<open>await\<close>; the database takes the writes in the order of the calls, before
  any read that is asked for later, so the model applies the write on the spot.
\<close>

definition refreshPodcast :: "PodcastindexOrgClient \<Rightarrow> Podcast RequireId \<Rightarrow> database \<Rightarrow> database" where
  "refreshPodcast client podcast db =
     (case getEpisodes client (p_feedUrl (snd podcast)) of
        Inl err \<Rightarrow> db
      | Inr eps \<Rightarrow>
          (let storedEpisodes = ctrl_getEpisodes (p_feedUrl (snd podcast)) db
           in store_putEpisodes (foldl (reconcileEpisode (fst podcast)) storedEpisodes eps) db))"

fun updatePodcasts_loop ::
  "PodcastindexOrgClient \<Rightarrow> Podcast RequireId list \<Rightarrow> database \<Rightarrow> (error + unit) \<times> database" where
  "updatePodcasts_loop client [] db = (Inr (), db)"
| "updatePodcasts_loop client (podcast # rest) db =
     updatePodcasts_loop client rest (refreshPodcast client podcast db)"

definition ctrl_updatePodcasts :: "PodcastindexOrgClient \<Rightarrow> database \<Rightarrow> (error + unit) \<times> database" where
  "ctrl_updatePodcasts client db = updatePodcasts_loop client (store_getPodcasts db) db"

text \<open>\<open>podcasts.find((p) => p.id === episode.podcastId)\<close>, \<open>None\<close> when there is none.\<close>

definition addPodcastToEpisodes ::
  "Episode RequireId list \<Rightarrow> Podcast RequireId list \<Rightarrow> (Episode RequireId \<times> Podcast RequireId option) list" where
  "addPodcastToEpisodes eps pods =
     map (\<lambda>episode. (episode, find (\<lambda>p. fst p = e_podcastId (snd episode)) pods)) eps"

definition ctrl_getAllEpisodes ::
  "nat \<Rightarrow> date \<Rightarrow> database \<Rightarrow> (Episode RequireId \<times> Podcast RequireId option) list" where
  "ctrl_getAllEpisodes count asOfPubDate db =
     (let pods = store_getPodcasts db;
          eps = store_getAllEpisodes count asOfPubDate db
      in addPodcastToEpisodes eps pods)"

definition ctrl_getEpisodesInProgress ::
  "database \<Rightarrow> (Episode RequireId \<times> Podcast RequireId option) list" where
  "ctrl_getEpisodesInProgress db =
     (let pods = store_getPodcasts db;
          episodesInProgress = store_getEpisodesInProgress db
      in addPodcastToEpisodes episodesInProgress pods)"

text \<open>\<open>updateEpisodeCurrentTime\<close> starts the update and returns; the model is the update's effect.\<close>

definition ctrl_updateEpisodeCurrentTime :: "date \<Rightarrow> nat \<Rightarrow> number \<Rightarrow> database \<Rightarrow> database" where
  "ctrl_updateEpisodeCurrentTime now episodeId position db =
     store_updateEpisode
       ((noEpisodeChanges episodeId)\<lparr>ec_position := Some position, ec_lastTimeListened := Some now\<rparr>) db"

section \<open>Invariants of the database\<close>

text \<open>
  The key generator is above every key in use. Every operation of a table keeps this,
  and it holds of the empty table.
\<close>

definition wf_table :: "'a table \<Rightarrow> bool" where
  "wf_table t = (\<forall>k. nextKey t \<le> k \<longrightarrow> rows t k = None)"


text \<open>At most the podcast with key \<open>k\<close> has the feed URL \<open>u\<close>.\<close>

definition only_url :: "Podcast table \<Rightarrow> nat \<Rightarrow> string \<Rightarrow> bool" where
  "only_url t k u = (\<forall>k' r'. k' < nextKey t \<and> rows t k' = Some r' \<and> p_feedUrl r' = u \<longrightarrow> k' = k)"


section \<open>Example data\<close>

definition exampleEpisode :: "int \<Rightarrow> date \<Rightarrow> string \<Rightarrow> PodcastIndexOrgEpisode" where
  "exampleEpisode i d t =
     \<lparr>pie_id = i, pie_title = t, pie_link = ''https://example.com/ep'', pie_description = ''text'',
      pie_pubDate = d, pie_imageUrl = ''https://example.com/ep.png'', pie_enclosure = None,
      pie_guid = t\<rparr>"

definition exampleClient :: "PodcastIndexOrgEpisode list \<Rightarrow> PodcastindexOrgClient" where
  "exampleClient eps =
     \<lparr>getPodcastByFeedUrl = (\<lambda>feedUrl. Inr \<lparr>pip_id = 7, pip_title = ''Example'', pip_description = ''text'',
                                            pip_link = ''https://example.com'',
                                            pip_imageUrl = ''https://example.com/p.png'', pip_value = None\<rparr>),
      getEpisodes = (\<lambda>feedUrl. Inr eps)\<rparr>"

definition examplePodcast :: "string \<Rightarrow> PodcastToAdd" where
  "examplePodcast feedUrl =
     \<lparr>a_feedUrl = feedUrl, a_title = None, a_description = None,
      a_imageUrl = None, a_subscribed = True, a_podcastIndexOrgId = None\<rparr>"

definition exampleStoredPodcast :: Podcast where
  "exampleStoredPodcast =
     \<lparr>p_status = New, p_feedUrl = ''https://example.com/feed.xml'', p_alternateFeedUrls = None,
      p_lastBuildDate = None, p_lastItemPubDate = None, p_firstItemPubDate = None, p_title = None,
      p_description = None, p_link = None, p_imageUrl = None, p_subscribed = True,
      p_podcastIndexOrgId = None, p_podcastIndexOrgLastEpisodeFetch = None, p_value = None\<rparr>"

definition exampleDatabase :: database where
  "exampleDatabase =
     snd (ctrl_addPodcast 1000
            (exampleClient [exampleEpisode 1 10 ''one'', exampleEpisode 2 20 ''two'', exampleEpisode 3 30 ''three''])
            (examplePodcast ''https://example.com/feed.xml'') newDatabase)"

definition exampleDatabase2 :: database where
  "exampleDatabase2 =
     snd (ctrl_addPodcast 1500
            (exampleClient [exampleEpisode 1 15 ''uno'', exampleEpisode 2 25 ''due''])
            (examplePodcast ''https://example.org/other.xml'') exampleDatabase)"

section \<open>Notions for the refresh\<close>

text \<open>The directory id of an episode held in memory, and the mapping to the stored form.\<close>

abbreviation pio :: "Episode OptionalId \<Rightarrow> int" where
  "pio r \<equiv> e_podcastIndexOrgId (snd r)"

abbreviation mapped :: "PodcastIndexOrgEpisode \<Rightarrow> MappedEpisode" where
  "mapped \<equiv> mapPodcastIndexOrgEpisodeToStorage"

text \<open>The last episode of a remote list that has the directory id \<open>x\<close>.\<close>

definition lastWith :: "PodcastIndexOrgEpisode list \<Rightarrow> int \<Rightarrow> PodcastIndexOrgEpisode option" where
  "lastWith eps x = find (\<lambda>e. pie_id e = x) (rev eps)"

text \<open>\<open>episodes.forEach(...)\<close> of \<open>updatePodcasts\<close> as a whole.\<close>

definition reconcile :: "nat \<Rightarrow> PodcastIndexOrgEpisode list \<Rightarrow> Episode OptionalId list \<Rightarrow> Episode OptionalId list" where
  "reconcile podcastId eps storedEpisodes = foldl (reconcileEpisode podcastId) storedEpisodes eps"

text \<open>\<open>r'\<close> is \<open>r\<close>, or \<open>r\<close> overlaid with a remote episode that has its directory id.\<close>

definition derived :: "PodcastIndexOrgEpisode list \<Rightarrow> Episode OptionalId \<Rightarrow> Episode OptionalId \<Rightarrow> bool" where
  "derived R r r' \<longleftrightarrow> r' = r \<or> (\<exists>x\<in>set R. pie_id x = pio r \<and> r' = spreadOver r (mapped x))"

text \<open>
  The invariant of the database: both key generators are above the keys in use, and
  the unique index \<open>&feedUrl\<close> holds. \<open>new Database()\<close> satisfies it and the operations
  of the store keep it.
\<close>

definition feedUrl_unique :: "Podcast table \<Rightarrow> bool" where
  "feedUrl_unique t \<longleftrightarrow>
     (\<forall>k1 k2 p1 p2. rows t k1 = Some p1 \<and> rows t k2 = Some p2 \<and> p_feedUrl p1 = p_feedUrl p2 \<longrightarrow> k1 = k2)"

definition wf_database :: "database \<Rightarrow> bool" where
  "wf_database db \<longleftrightarrow>
     wf_table (podcasts db) \<and> wf_table (episodes db) \<and> feedUrl_unique (podcasts db)"

text \<open>What \<open>this.getEpisodes(podcast.feedUrl)\<close> yields for the podcast with key \<open>podcastId\<close>.\<close>

definition storedEpisodesOf :: "nat \<Rightarrow> database \<Rightarrow> Episode OptionalId list" where
  "storedEpisodesOf podcastId db = map (\<lambda>r. (Some (fst r), snd r)) (store_getEpisodes podcastId db)"

text \<open>No two stored episodes of one podcast have the same directory id.\<close>

definition directoryIds_distinct :: "database \<Rightarrow> bool" where
  "directoryIds_distinct db \<longleftrightarrow>
     (\<forall>k1 k2 e1 e2. rows (episodes db) k1 = Some e1 \<and> rows (episodes db) k2 = Some e2
         \<and> e_podcastId e1 = e_podcastId e2 \<and> e_podcastIndexOrgId e1 = e_podcastIndexOrgId e2
        \<longrightarrow> k1 = k2)"

text \<open>The fetch of the podcast's episodes succeeds.\<close>

definition fetched :: "PodcastindexOrgClient \<Rightarrow> Podcast RequireId \<Rightarrow> bool" where
  "fetched client podcast =
     (case getEpisodes client (p_feedUrl (snd podcast)) of Inl err \<Rightarrow> False | Inr eps \<Rightarrow> True)"

text \<open>The stored episodes of the podcast are what a refresh would write.\<close>

definition settled :: "PodcastindexOrgClient \<Rightarrow> Podcast RequireId \<Rightarrow> database \<Rightarrow> bool" where
  "settled client podcast db =
     (case getEpisodes client (p_feedUrl (snd podcast)) of
        Inl err \<Rightarrow> True
      | Inr eps \<Rightarrow> reconcile (fst podcast) eps (storedEpisodesOf (fst podcast) db)
                    = storedEpisodesOf (fst podcast) db)"

text \<open>Every fetched episode of the podcast has a stored episode with its directory id.\<close>

definition covered :: "PodcastindexOrgClient \<Rightarrow> Podcast RequireId \<Rightarrow> database \<Rightarrow> bool" where
  "covered client podcast db =
     (case getEpisodes client (p_feedUrl (snd podcast)) of
        Inl err \<Rightarrow> True
      | Inr eps \<Rightarrow> \<forall>x\<in>set eps. pie_id x \<in> pio ` set (storedEpisodesOf (fst podcast) db))"

section \<open>More example data\<close>

text \<open>A directory that cannot be reached for the first feed and answers for every other.\<close>

definition exampleFailingClient :: PodcastindexOrgClient where
  "exampleFailingClient =
     \<lparr>getPodcastByFeedUrl = (\<lambda>feedUrl. Inl FetchError),
      getEpisodes = (\<lambda>feedUrl. if feedUrl = ''https://example.com/feed.xml'' then Inl FetchError
                              else Inr [exampleEpisode 2 26 ''due bis'', exampleEpisode 9 40 ''nove''])\<rparr>"

text \<open>An episode of the directory that has an enclosure.\<close>

definition exampleEnclosed :: "int \<Rightarrow> date \<Rightarrow> string \<Rightarrow> PodcastIndexOrgEpisode" where
  "exampleEnclosed i d t =
     (exampleEpisode i d t)
       \<lparr>pie_enclosure := Some \<lparr>enc_url = ''https://example.com/ep.mp3'', enc_length = 1000, enc_type = ''audio/mpeg''\<rparr>\<rparr>"

text \<open>A podcast added while the directory listed its episode with an enclosure.\<close>

definition enclosedDatabase :: database where
  "enclosedDatabase =
     snd (ctrl_addPodcast 1000
            (exampleClient [exampleEnclosed 1 10 ''one''])
            (examplePodcast ''https://example.com/feed.xml'') newDatabase)"

text \<open>A podcast added while the directory listed two episodes under one id.\<close>

definition duplicateDatabase :: database where
  "duplicateDatabase =
     snd (ctrl_addPodcast 1000
            (exampleClient [exampleEpisode 5 10 ''A'', exampleEpisode 5 20 ''B''])
            (examplePodcast ''https://example.com/feed.xml'') newDatabase)"

definition exampleListened :: database where
  "exampleListened = ctrl_updateEpisodeCurrentTime 2000 2 120 exampleDatabase"

text \<open>
  The scenario of the spec: on an empty database the podcast with the feed URL
  \<open>https://example.com/feed.xml\<close> is added while the directory lists three episodes
  with the ids 1, 2, 3, and then refreshed while it lists ids 2, 3, 4. Everything else
  of the payloads is arbitrary.
\<close>

definition scenarioClient :: "PodcastIndexOrgPodcast \<Rightarrow> PodcastIndexOrgEpisode list \<Rightarrow> PodcastindexOrgClient" where
  "scenarioClient pm eps = \<lparr>getPodcastByFeedUrl = (\<lambda>feedUrl. Inr pm), getEpisodes = (\<lambda>feedUrl. Inr eps)\<rparr>"

definition scenarioAdded ::
  "date \<Rightarrow> PodcastIndexOrgPodcast \<Rightarrow> PodcastToAdd \<Rightarrow> PodcastIndexOrgEpisode \<Rightarrow> PodcastIndexOrgEpisode
     \<Rightarrow> PodcastIndexOrgEpisode \<Rightarrow> database" where
  "scenarioAdded now pm toAdd ep1 ep2 ep3 =
     snd (ctrl_addPodcast now
            (scenarioClient pm [ep1\<lparr>pie_id := 1\<rparr>, ep2\<lparr>pie_id := 2\<rparr>, ep3\<lparr>pie_id := 3\<rparr>])
            (toAdd\<lparr>a_feedUrl := ''https://example.com/feed.xml''\<rparr>) newDatabase)"

definition scenarioRefreshed ::
  "PodcastIndexOrgPodcast \<Rightarrow> PodcastIndexOrgEpisode \<Rightarrow> PodcastIndexOrgEpisode
     \<Rightarrow> PodcastIndexOrgEpisode \<Rightarrow> database \<Rightarrow> database" where
  "scenarioRefreshed pm ep2 ep3 ep4 db =
     snd (ctrl_updatePodcasts
            (scenarioClient pm [ep2\<lparr>pie_id := 2\<rparr>, ep3\<lparr>pie_id := 3\<rparr>, ep4\<lparr>pie_id := 4\<rparr>]) db)"

text \<open>
  An instance of the scenario: the third episode is first listed with an enclosure and
  then without one, the second one the other way round.
\<close>

definition examplePodcastAtDirectory :: PodcastIndexOrgPodcast where
  "examplePodcastAtDirectory =
     \<lparr>pip_id = 7, pip_title = ''Example'', pip_description = ''text'', pip_link = ''https://example.com'',
      pip_imageUrl = ''https://example.com/p.png'', pip_value = None\<rparr>"

definition scenarioExample :: database where
  "scenarioExample =
     scenarioRefreshed examplePodcastAtDirectory
       (exampleEnclosed 0 21 ''two, revised'') (exampleEpisode 0 31 ''three, revised'')
       (exampleEpisode 0 40 ''four'')
       (scenarioAdded 1000 examplePodcastAtDirectory (examplePodcast '''')
          (exampleEpisode 0 10 ''one'') (exampleEpisode 0 20 ''two'') (exampleEnclosed 0 30 ''three''))"

section \<open>Tables and queries\<close>

lemma toArray_iff: "(k, r) \<in> set (toArray t) \<longleftrightarrow> k < nextKey t \<and> rows t k = Some r"
  by (force simp: toArray_def List.map_filter_def image_iff)

lemma toArray_keys: "map fst (toArray t) = filter (\<lambda>k. rows t k \<noteq> None) [0..<nextKey t]"
  unfolding toArray_def List.map_filter_def 
  by (rule nth_equalityI) (auto simp: comp_def dest!: nth_mem)

lemma sorted_toArray: "sorted (map fst (toArray t))"
  unfolding toArray_keys by (rule sorted_wrt_filter) simp

lemma distinct_toArray_keys: "distinct (map fst (toArray t))"
  by (simp add: toArray_keys)

lemma distinct_toArray: "distinct (toArray t)"
  using distinct_toArray_keys distinct_map by blast

lemma distinct_singleton_filter:
  "distinct xs \<Longrightarrow> x \<in> set xs \<Longrightarrow> P x \<Longrightarrow> (\<forall>y\<in>set xs. P y \<longrightarrow> y = x) \<Longrightarrow> filter P xs = [x]"
proof (induction xs)
  case Nil then show ?case by simp
next
  case (Cons a xs)
  have d: "distinct xs" "a \<notin> set xs" using Cons.prems(1) by simp_all
  have u: "\<forall>y\<in>set xs. P y \<longrightarrow> y = x" using Cons.prems(4) by (meson list.set_intros(2))
  show ?case
  proof (cases "a = x")
    case True
    with d u have "\<forall>y\<in>set xs. \<not> P y" by blast
    then have "filter P xs = []" by (simp add: filter_empty_conv)
    with True Cons.prems(3) show ?thesis by simp
  next
    case False
    have np: "\<not> P a" using Cons.prems(4) False by (meson list.set_intros(1))
    have mem: "x \<in> set xs" using Cons.prems(2) False by simp
    from Cons.IH[OF d(1) mem Cons.prems(3) u] np show ?thesis by simp
  qed
qed

lemma filter_toArray_single:
  assumes "k < nextKey t" "rows t k = Some r" "P (k, r)"
    and "\<forall>k' r'. k' < nextKey t \<and> rows t k' = Some r' \<and> P (k', r') \<longrightarrow> k' = k"
  shows "filter P (toArray t) = [(k, r)]"
proof (rule distinct_singleton_filter)
  show "distinct (toArray t)" by (rule distinct_toArray)
  show "(k, r) \<in> set (toArray t)" using assms(1,2) by (simp add: toArray_iff)
  show "P (k, r)" by fact
  show "\<forall>y\<in>set (toArray t). P y \<longrightarrow> y = (k, r)"
  proof (intro ballI impI)
    fix y assume y: "y \<in> set (toArray t)" "P y"
    obtain k' r' where yy: "y = (k', r')" by (cases y)
    with y have "k' < nextKey t" "rows t k' = Some r'" "P (k', r')" by (simp_all add: toArray_iff)
    with assms(4) have "k' = k" by blast
    with \<open>rows t k' = Some r'\<close> assms(2) yy show "y = (k, r)" by simp
  qed
qed

lemma list_ex_toArray:
  "list_ex P (toArray t) \<longleftrightarrow> (\<exists>k r. k < nextKey t \<and> rows t k = Some r \<and> P (k, r))"
  by (auto simp: list_ex_iff toArray_iff)

lemma store_getPodcast_eq:
  "store_getPodcast u db = (case filter (\<lambda>r. p_feedUrl (snd r) = u) (toArray (podcasts db)) of [] \<Rightarrow> None | x # _ \<Rightarrow> Some x)"
  by (simp add: store_getPodcast_def first_def where_equals_def)

lemma set_insertSorted: "set (insertSorted comparefn x ys) = insert x (set ys)"
  by (induction ys) auto

lemma length_insertSorted: "length (insertSorted comparefn x ys) = Suc (length ys)"
  by (induction ys) auto

lemma distinct_map_insertSorted:
  "distinct (map f (insertSorted comparefn x ys)) \<longleftrightarrow> f x \<notin> f ` set ys \<and> distinct (map f ys)"
  by (induction ys) (auto simp: set_insertSorted)

lemma array_sort_Cons:
  "array_sort comparefn (x # xs) = insertSorted comparefn x (array_sort comparefn xs)"
  by (simp add: array_sort_def)

lemma set_array_sort: "set (array_sort comparefn xs) = set xs"
  by (induction xs) (simp_all add: array_sort_def set_insertSorted)

lemma length_array_sort: "length (array_sort comparefn xs) = length xs"
  by (induction xs) (simp_all add: array_sort_def length_insertSorted)

lemma distinct_map_array_sort: "distinct (map f (array_sort comparefn xs)) \<longleftrightarrow> distinct (map f xs)"
proof (induction xs)
  case Nil then show ?case by (simp add: array_sort_def)
next
  case (Cons x xs)
  then show ?case by (simp add: array_sort_Cons distinct_map_insertSorted set_array_sort)
qed

text \<open>A comparison function that orders nothing leaves the array as it is.\<close>

lemma array_sort_unordered:
  "(\<forall>x\<in>set xs. \<forall>y\<in>set xs. comparefn x y \<le> 0) \<Longrightarrow> array_sort comparefn xs = xs"
proof (induction xs)
  case Nil then show ?case by (simp add: array_sort_def)
next
  case (Cons x xs)
  then have "array_sort comparefn xs = xs" by simp
  with Cons.prems show ?case by (cases xs) (simp_all add: array_sort_Cons)
qed

text \<open>
  \<open>sortBy\<close> on objects that all lack the property yields them in the order of the
  iteration, and an object that lacks the property keeps its place in every case. The
  objects with one and the same value of the property keep the order of the iteration.
  On objects that all have the property, a forward collection is sorted as \<open>sort_key\<close>
  sorts it and a reversed one comes out in descending order of the property.
\<close>

lemma sorter_absent: "key a = None \<or> key b = None \<Longrightarrow> sorter d key a b = 0"
  by (auto simp: sorter_def js_less_def Let_def split: option.splits)

lemma sortBy_absent: "(\<forall>x\<in>set (fst c). key x = None) \<Longrightarrow> sortBy key c = fst c"
  unfolding sortBy_def by (rule array_sort_unordered) (simp add: sorter_absent)

lemma insertSorted_absent_front: "key x = None \<Longrightarrow> insertSorted (sorter d key) x ys = x # ys"
  by (cases ys) (simp_all add: sorter_absent)

lemma insertSorted_absent_fixed:
  "j < length ys \<Longrightarrow> key (ys ! j) = None \<Longrightarrow> insertSorted (sorter d key) x ys ! Suc j = ys ! j"
proof (induction ys arbitrary: j)
  case Nil then show ?case by simp
next
  case (Cons y ys)
  show ?case
  proof (cases "sorter d key x y \<le> 0")
    case True then show ?thesis by simp
  next
    case False
    have "j \<noteq> 0"
    proof
      assume "j = 0"
      with Cons.prems have "key y = None" by simp
      then have "sorter d key x y = 0" by (simp add: sorter_absent)
      with False show False by simp
    qed
    then obtain i where j: "j = Suc i" by (cases j) auto
    with Cons.prems have "i < length ys" "key (ys ! i) = None" by simp_all
    from Cons.IH[OF this] False j show ?thesis by simp
  qed
qed

lemma sortBy_absent_fixed:
  "i < length xs \<Longrightarrow> key (xs ! i) = None \<Longrightarrow> sortBy key (xs, d) ! i = xs ! i"
proof (induction xs arbitrary: i)
  case Nil then show ?case by simp
next
  case (Cons x xs)
  show ?case
  proof (cases i)
    case 0
    with Cons.prems have "key x = None" by simp
    with 0 show ?thesis by (simp add: sortBy_def array_sort_Cons insertSorted_absent_front)
  next
    case (Suc j)
    with Cons.prems have j: "j < length xs" "key (xs ! j) = None" by simp_all
    from Cons.IH[OF j] have s: "array_sort (sorter d key) xs ! j = xs ! j" by (simp add: sortBy_def)
    with j have "j < length (array_sort (sorter d key) xs)" "key (array_sort (sorter d key) xs ! j) = None"
      by (simp_all add: length_array_sort)
    from insertSorted_absent_fixed[of j "array_sort (sorter d key) xs" key d x, OF this] s Suc
    show ?thesis
      by (simp add: sortBy_def array_sort_Cons)
  qed
qed

lemma insertSorted_descending:
  assumes "key x \<noteq> None" and "\<forall>y\<in>set ys. key y \<noteq> None"
    and "sorted_wrt (\<lambda>a b. the (key b) \<le> the (key a)) ys"
  shows "sorted_wrt (\<lambda>a b. the (key b) \<le> the (key a)) (insertSorted (sorter Backward key) x ys)"
  using assms
  by (induction ys) (auto simp: set_insertSorted sorter_def js_less_def Let_def split: if_splits)

lemma sortBy_descending:
  assumes "\<forall>x\<in>set xs. key x \<noteq> None"
  shows "sorted_wrt (\<lambda>a b. the (key b) \<le> the (key a)) (sortBy key (xs, Backward))"
  using assms
proof (induction xs)
  case Nil then show ?case by (simp add: sortBy_def array_sort_def)
next
  case (Cons x xs)
  then have "sorted_wrt (\<lambda>a b. the (key b) \<le> the (key a)) (array_sort (sorter Backward key) xs)"
    by (simp add: sortBy_def)
  moreover have "\<forall>y\<in>set (array_sort (sorter Backward key) xs). key y \<noteq> None"
    using Cons.prems by (simp add: set_array_sort)
  moreover have "key x \<noteq> None" using Cons.prems by simp
  ultimately show ?case
    by (simp add: sortBy_def array_sort_Cons insertSorted_descending)
qed

lemma filter_insertSorted:
  "filter (\<lambda>y. key y = Some k) (insertSorted (sorter d key) x ys)
     = (if key x = Some k then x # filter (\<lambda>y. key y = Some k) ys
        else filter (\<lambda>y. key y = Some k) ys)"
  by (induction ys) (auto simp: sorter_def js_less_def Let_def split: if_splits option.splits)

lemma sortBy_stable:
  "filter (\<lambda>y. key y = Some k) (sortBy key c) = filter (\<lambda>y. key y = Some k) (fst c)"
proof -
  have "filter (\<lambda>y. key y = Some k) (array_sort (sorter d key) xs) = filter (\<lambda>y. key y = Some k) xs"
    for d xs
    by (induction xs) (simp_all add: array_sort_def filter_insertSorted)
  then show ?thesis by (simp add: sortBy_def)
qed

lemma insertSorted_forward:
  assumes "key x \<noteq> None" and "\<forall>y\<in>set ys. key y \<noteq> None"
  shows "insertSorted (sorter Forward key) x ys = insort_key (\<lambda>r. the (key r)) x ys"
  using assms
  by (induction ys) (auto simp: sorter_def js_less_def Let_def split: if_splits)

lemma sortBy_forward:
  assumes "\<forall>x\<in>set xs. key x \<noteq> None"
  shows "sortBy key (xs, Forward) = sort_key (\<lambda>r. the (key r)) xs"
  using assms
proof (induction xs)
  case Nil then show ?case by (simp add: sortBy_def array_sort_def)
next
  case (Cons x xs)
  then have "array_sort (sorter Forward key) xs = sort_key (\<lambda>r. the (key r)) xs"
    by (simp add: sortBy_def)
  with Cons.prems show ?case
    by (simp add: sortBy_def array_sort_Cons insertSorted_forward)
qed

lemma set_sortBy: "set (sortBy key c) = set (fst c)"
  by (simp add: sortBy_def set_array_sort)

lemma length_sortBy: "length (sortBy key c) = length (fst c)"
  by (simp add: sortBy_def length_array_sort)

lemma set_reverse: "set (fst (reverse c)) = set (fst c)"
  by (simp add: reverse_def)

lemma store_getEpisodes_iff:
  "(k, e) \<in> set (store_getEpisodes podcastId db) \<longleftrightarrow>
     k < nextKey (episodes db) \<and> rows (episodes db) k = Some e \<and> e_podcastId e = podcastId"
  by (auto simp: store_getEpisodes_def set_sortBy set_reverse where_equals_def toArray_iff)

lemma index_rows_sorted: "sorted (map (\<lambda>r. the (key (snd r))) (index_rows key t))"
  by (simp add: index_rows_def)

lemma index_rows_iff:
  "(k, r) \<in> set (index_rows key t) \<longleftrightarrow> k < nextKey t \<and> rows t k = Some r \<and> key r \<noteq> None"
  by (auto simp: index_rows_def toArray_iff)

lemma store_getAllEpisodes_eq:
  "store_getAllEpisodes count asOf db =
     take count (rev (filter (\<lambda>r. the (e_pubDate (snd r)) \<le> asOf) (index_rows e_pubDate (episodes db))))"
  by (simp add: store_getAllEpisodes_def collection_toArray_def limit_def reverse_def where_belowOrEqual_def)

lemma sorted_desc_take_rev_filter:
  assumes "sorted (map f xs)"
  shows "sorted_wrt (\<lambda>a b. f b \<le> f a) (take n (rev (filter P xs)))"
proof -
  from assms have "sorted_wrt (\<lambda>a b. f a \<le> f b) xs" by (simp add: sorted_map)
  then have "sorted_wrt (\<lambda>a b. f a \<le> f b) (filter P xs)" by (rule sorted_wrt_filter)
  then have "sorted_wrt (\<lambda>a b. f b \<le> f a) (rev (filter P xs))" by (simp add: sorted_wrt_rev)
  then show ?thesis by (rule sorted_wrt_take)
qed

lemma store_getEpisodesInProgress_iff:
  "(k, e) \<in> set (store_getEpisodesInProgress db) \<longleftrightarrow>
     k < nextKey (episodes db) \<and> rows (episodes db) k = Some e \<and> (\<exists>p. e_position e = Some p \<and> 0 \<le> p)"
  by (auto simp: store_getEpisodesInProgress_def set_sortBy set_reverse where_aboveOrEqual_def index_rows_iff)

lemma applyEpisodeChanges_currentTime:
  "applyEpisodeChanges ((noEpisodeChanges k)\<lparr>ec_position := Some p, ec_lastTimeListened := Some now\<rparr>) e
     = e\<lparr>e_position := Some p, e_lastTimeListened := Some now\<rparr>"
  by (cases e) (simp add: applyEpisodeChanges_def noEpisodeChanges_def)

lemma ec_id_noEpisodeChanges:
  "ec_id ((noEpisodeChanges k)\<lparr>ec_position := p, ec_lastTimeListened := l\<rparr>) = k"
  by (simp add: noEpisodeChanges_def)

lemma map_fst_addPodcastToEpisodes: "map fst (addPodcastToEpisodes eps pods) = eps"
  by (simp add: addPodcastToEpisodes_def comp_def)

lemma store_updatePodcast_ok:
  assumes "pc_id c = k" and "rows (podcasts db) k = Some p" and "pc_feedUrl c = None"
    and "only_url (podcasts db) k (p_feedUrl p)"
  shows "store_updatePodcast c db =
           (Inr (), db\<lparr>podcasts := (podcasts db)\<lparr>rows := (rows (podcasts db))(k \<mapsto> applyPodcastChanges c p)\<rparr>\<rparr>)"
proof -
  have u: "p_feedUrl (applyPodcastChanges c p) = p_feedUrl p"
    using assms(3) by (simp add: applyPodcastChanges_def)
  have "\<not> list_ex (\<lambda>r. fst r \<noteq> k \<and> p_feedUrl (snd r) = p_feedUrl (applyPodcastChanges c p))
            (toArray (podcasts db))"
    unfolding list_ex_toArray u using assms(4) by (auto simp: only_url_def)
  then show ?thesis using assms(1,2) by (simp add: store_updatePodcast_def Let_def)
qed

lemma only_url_update:
  assumes "only_url t k u"
  shows "only_url (t\<lparr>rows := (rows t)(k \<mapsto> q)\<rparr>) k u"
  using assms by (auto simp: only_url_def)

lemma first_singleton: "first ([x], d) = Some x"
  by (simp add: first_def)

section \<open>Reconciliation\<close>

lemma reconcile_Nil [simp]: "reconcile p [] L = L"
  by (simp add: reconcile_def)

lemma reconcile_Cons [simp]: "reconcile p (e # R) L = reconcile p R (reconcileEpisode p L e)"
  by (simp add: reconcile_def)

lemma find_append:
  "find P (xs @ ys) = (case find P xs of None \<Rightarrow> find P ys | Some x \<Rightarrow> Some x)"
  by (induction xs) auto

lemma lastWith_Nil [simp]: "lastWith [] x = None"
  by (simp add: lastWith_def)

lemma lastWith_Cons:
  "lastWith (e # R) x =
     (case lastWith R x of Some e' \<Rightarrow> Some e' | None \<Rightarrow> if pie_id e = x then Some e else None)"
  by (simp add: lastWith_def find_append split: option.splits)

lemma find_SomeD: "find P xs = Some x \<Longrightarrow> x \<in> set xs \<and> P x"
  by (induction xs) (auto split: if_splits)

lemma lastWith_SomeD: "lastWith R x = Some e \<Longrightarrow> e \<in> set R \<and> pie_id e = x"
  unfolding lastWith_def using find_SomeD[of "\<lambda>e. pie_id e = x" "rev R" e] by simp

lemma lastWith_None_iff: "lastWith R x = None \<longleftrightarrow> (\<forall>e\<in>set R. pie_id e \<noteq> x)"
  unfolding lastWith_def by (auto simp: find_None_iff)

lemma fst_spreadOver [simp]: "fst (spreadOver r m) = fst r"
  by (simp add: spreadOver_def)

lemma pio_spreadOver [simp]: "pio (spreadOver r (mapped e)) = pie_id e"
  by (simp add: spreadOver_def mapPodcastIndexOrgEpisodeToStorage_def)

lemma pio_withPodcastId [simp]: "pio (withPodcastId (mapped e) p) = pie_id e"
  by (simp add: withPodcastId_def mapPodcastIndexOrgEpisodeToStorage_def)

lemma fst_withPodcastId [simp]: "fst (withPodcastId m p) = None"
  by (simp add: withPodcastId_def)

lemma podcastId_spreadOver [simp]: "e_podcastId (snd (spreadOver r m)) = e_podcastId (snd r)"
  by (simp add: spreadOver_def)

lemma podcastId_withPodcastId [simp]: "e_podcastId (snd (withPodcastId m p)) = p"
  by (simp add: withPodcastId_def)

lemma spreadOver_spreadOver [simp]: "spreadOver (spreadOver r m1) m2 = spreadOver r m2"
  by (simp add: spreadOver_def)

lemma spreadOver_withPodcastId [simp]: "spreadOver (withPodcastId m1 p) m2 = withPodcastId m2 p"
  by (simp add: spreadOver_def withPodcastId_def)

lemma findIndex_None_iff: "findIndex P xs = None \<longleftrightarrow> (\<forall>x\<in>set xs. \<not> P x)"
  by (induction xs) auto

lemma findIndex_SomeD:
  "findIndex P xs = Some i \<Longrightarrow> i < length xs \<and> P (xs ! i) \<and> (\<forall>j<i. \<not> P (xs ! j))"
proof (induction xs arbitrary: i)
  case Nil then show ?case by simp
next
  case (Cons a xs)
  show ?case
  proof (cases "P a")
    case True with Cons.prems show ?thesis by simp
  next
    case False
    with Cons.prems obtain i' where i': "findIndex P xs = Some i'" "i = Suc i'" by auto
    from Cons.IH[OF i'(1)] False i'(2) show ?thesis
      by (auto simp: nth_Cons split: nat.splits)
  qed
qed

lemma find_update_hit:
  "findIndex P xs = Some i \<Longrightarrow> P s \<Longrightarrow> find P (xs[i := s]) = Some s"
proof (induction xs arbitrary: i)
  case Nil then show ?case by simp
next
  case (Cons a xs) then show ?case by (cases "P a") auto
qed

lemma find_update_miss:
  "i < length xs \<Longrightarrow> \<not> Q (xs ! i) \<Longrightarrow> \<not> Q s \<Longrightarrow> find Q (xs[i := s]) = find Q xs"
proof (induction xs arbitrary: i)
  case Nil then show ?case by simp
next
  case (Cons a xs) then show ?case by (cases i) auto
qed

lemma findIndex_find:
  "findIndex P xs = Some i \<Longrightarrow> find P xs = Some (xs ! i)"
proof (induction xs arbitrary: i)
  case Nil then show ?case by simp
next
  case (Cons a xs) then show ?case by (cases "P a") auto
qed

lemma reconcileEpisode_cases:
  obtains (match) i where "findIndex (\<lambda>r. pio r = pie_id e) L = Some i" "i < length L"
      "pio (L ! i) = pie_id e"
      "reconcileEpisode p L e = L[i := spreadOver (L ! i) (mapped e)]"
  | (new) "\<forall>r\<in>set L. pio r \<noteq> pie_id e" "reconcileEpisode p L e = L @ [withPodcastId (mapped e) p]"
proof (cases "findIndex (\<lambda>r. pio r = pie_id e) L")
  case None
  then have "\<forall>r\<in>set L. pio r \<noteq> pie_id e" by (auto simp: findIndex_None_iff)
  moreover have "reconcileEpisode p L e = L @ [withPodcastId (mapped e) p]"
    using None by (simp add: reconcileEpisode_def)
  ultimately show thesis by (rule new)
next
  case (Some i)
  from findIndex_SomeD[OF Some] have "i < length L" "pio (L ! i) = pie_id e" by simp_all
  moreover have "reconcileEpisode p L e = L[i := spreadOver (L ! i) (mapped e)]"
    using Some by (simp add: reconcileEpisode_def)
  ultimately show thesis using Some by (rule match[rotated])
qed

lemma find_reconcileEpisode:
  "find (\<lambda>r. pio r = x) (reconcileEpisode p L e) =
     (if x = pie_id e
      then Some (case find (\<lambda>r. pio r = x) L of
                   Some r \<Rightarrow> spreadOver r (mapped e) | None \<Rightarrow> withPodcastId (mapped e) p)
      else find (\<lambda>r. pio r = x) L)"
proof (cases p L e rule: reconcileEpisode_cases)
  case (match i)
  let ?s = "spreadOver (L ! i) (mapped e)"
  show ?thesis
  proof (cases "x = pie_id e")
    case True
    have "find (\<lambda>r. pio r = pie_id e) (L[i := ?s]) = Some ?s"
      by (rule find_update_hit[OF match(1)]) simp
    moreover have "find (\<lambda>r. pio r = pie_id e) L = Some (L ! i)"
      by (rule findIndex_find[OF match(1)])
    ultimately show ?thesis using True match(4) by simp
  next
    case False
    have "find (\<lambda>r. pio r = x) (L[i := ?s]) = find (\<lambda>r. pio r = x) L"
      by (rule find_update_miss[OF match(2)]) (use False match(3) in simp_all)
    then show ?thesis using False match(4) by simp
  qed
next
  case new
  from new(1) have "find (\<lambda>r. pio r = pie_id e) L = None" by (auto simp: find_None_iff)
  then show ?thesis unfolding new(2) by (simp add: find_append split: option.splits)
qed

lemma find_reconcile:
  "find (\<lambda>r. pio r = x) (reconcile p R L) =
     (case lastWith R x of
        None \<Rightarrow> find (\<lambda>r. pio r = x) L
      | Some e \<Rightarrow> Some (case find (\<lambda>r. pio r = x) L of
                          Some r \<Rightarrow> spreadOver r (mapped e) | None \<Rightarrow> withPodcastId (mapped e) p))"
proof (induction R arbitrary: L)
  case Nil then show ?case by simp
next
  case (Cons e R)
  show ?case
    by (simp add: Cons.IH find_reconcileEpisode lastWith_Cons split: option.splits)
qed

lemma derived_fst: "derived R r r' \<Longrightarrow> fst r' = fst r"
  by (auto simp: derived_def)

lemma derived_pio: "derived R r r' \<Longrightarrow> pio r' = pio r"
  by (auto simp: derived_def)

lemma derived_podcastId: "derived R r r' \<Longrightarrow> e_podcastId (snd r') = e_podcastId (snd r)"
  by (auto simp: derived_def)

lemma set_reconcileEpisode:
  assumes "r' \<in> set (reconcileEpisode p L e)"
  shows "r' \<in> set L \<or> (\<exists>r\<in>set L. pio r = pie_id e \<and> r' = spreadOver r (mapped e))
         \<or> r' = withPodcastId (mapped e) p"
proof (cases p L e rule: reconcileEpisode_cases)
  case (match i)
  from assms match(4) have "r' \<in> insert (spreadOver (L ! i) (mapped e)) (set L)"
    using set_update_subset_insert by fastforce
  with match(2,3) show ?thesis by (metis insert_iff nth_mem)
next
  case new
  with assms show ?thesis by auto
qed

lemma set_reconcile:
  "r' \<in> set (reconcile p R L) \<Longrightarrow>
     (\<exists>r\<in>set L. derived R r r') \<or> (\<exists>x\<in>set R. r' = withPodcastId (mapped x) p)"
proof (induction R arbitrary: L)
  case Nil then show ?case by (auto simp: derived_def)
next
  case (Cons e R)
  from Cons.prems have "r' \<in> set (reconcile p R (reconcileEpisode p L e))" by simp
  from Cons.IH[OF this] consider
      (old) r1 where "r1 \<in> set (reconcileEpisode p L e)" "derived R r1 r'"
    | (new) x where "x \<in> set R" "r' = withPodcastId (mapped x) p"
    by blast
  then show ?case
  proof cases
    case new then show ?thesis by auto
  next
    case old
    from set_reconcileEpisode[OF old(1)] consider
        (a) "r1 \<in> set L"
      | (b) r where "r \<in> set L" "pio r = pie_id e" "r1 = spreadOver r (mapped e)"
      | (c) "r1 = withPodcastId (mapped e) p"
      by blast
    then show ?thesis
    proof cases
      case a
      with old(2) have "derived (e # R) r1 r'" by (auto simp: derived_def)
      with a show ?thesis by blast
    next
      case b
      from old(2) have "derived (e # R) r r'"
        unfolding derived_def b(3) using b(2) by auto
      with b(1) show ?thesis by blast
    next
      case c
      from old(2) have "\<exists>x\<in>set (e # R). r' = withPodcastId (mapped x) p"
        unfolding derived_def c by auto
      then show ?thesis by blast
    qed
  qed
qed

lemma struct_reconcileEpisode:
  "\<exists>A N. reconcileEpisode p L e = A @ N \<and> map fst A = map fst L \<and> (\<forall>r\<in>set N. fst r = None)"
proof (cases p L e rule: reconcileEpisode_cases)
  case (match i)
  have "map fst (L[i := spreadOver (L ! i) (mapped e)]) = map fst L"
    by (simp add: map_update list_update_same_conv match(2))
  with match(4) show ?thesis by (intro exI[of _ "reconcileEpisode p L e"] exI[of _ "[]"]) simp
next
  case new
  then show ?thesis by (intro exI[of _ L] exI[of _ "[withPodcastId (mapped e) p]"]) simp
qed

lemma struct_reconcile:
  "\<exists>A N. reconcile p R L = A @ N \<and> map fst A = map fst L \<and> (\<forall>r\<in>set N. fst r = None)"
proof (induction R arbitrary: L)
  case Nil show ?case by (intro exI[of _ L] exI[of _ "[]"]) simp
next
  case (Cons e R)
  obtain A1 N1 where 1: "reconcileEpisode p L e = A1 @ N1" "map fst A1 = map fst L"
      "\<forall>r\<in>set N1. fst r = None"
    using struct_reconcileEpisode by blast
  obtain A' N' where 2: "reconcile p R (A1 @ N1) = A' @ N'" "map fst A' = map fst (A1 @ N1)"
      "\<forall>r\<in>set N'. fst r = None"
    using Cons.IH[of "A1 @ N1"] by blast
  let ?A = "take (length A1) A'" and ?N = "drop (length A1) A'"
  from 2(2) have "map fst ?A = map fst A1" "map fst ?N = map fst N1"
    by (simp_all add: take_map[symmetric] drop_map[symmetric])
  moreover from this(2) 1(3) have "\<forall>r\<in>set ?N. fst r = None"
    by (metis (no_types, lifting) image_iff list.set_map)
  moreover have "reconcile p (e # R) L = ?A @ (?N @ N')"
    using 1(1) 2(1) by simp
  ultimately show ?case using 1(2) 2(3)
    by (intro exI[of _ ?A] exI[of _ "?N @ N'"]) auto
qed

lemma distinct_reconcileEpisode:
  "distinct (map pio L) \<Longrightarrow> distinct (map pio (reconcileEpisode p L e))"
proof (cases p L e rule: reconcileEpisode_cases)
  case (match i)
  assume "distinct (map pio L)"
  moreover have "map pio (L[i := spreadOver (L ! i) (mapped e)]) = map pio L"
    using match(2,3) by (simp add: map_update list_update_same_conv)
  ultimately show ?thesis using match(4) by simp
next
  case new
  assume "distinct (map pio L)"
  with new show ?thesis by auto
qed

lemma distinct_reconcile:
  "distinct (map pio L) \<Longrightarrow> distinct (map pio (reconcile p R L))"
  by (induction R arbitrary: L) (simp_all add: distinct_reconcileEpisode)

lemma podcastId_reconcile:
  assumes "\<forall>r\<in>set L. e_podcastId (snd r) = p" and "r' \<in> set (reconcile p R L)"
  shows "e_podcastId (snd r') = p"
  using set_reconcile[OF assms(2)] assms(1) by (auto dest: derived_podcastId)

lemma pio_set_reconcile:
  "pio ` set (reconcile p R L) = pio ` set L \<union> pie_id ` set R"
proof (intro equalityI subsetI)
  fix x assume "x \<in> pio ` set (reconcile p R L)"
  then obtain r' where "r' \<in> set (reconcile p R L)" "x = pio r'" by blast
  with set_reconcile[OF this(1)] show "x \<in> pio ` set L \<union> pie_id ` set R"
    by (auto dest: derived_pio)
next
  fix x assume x: "x \<in> pio ` set L \<union> pie_id ` set R"
  have "find (\<lambda>r. pio r = x) (reconcile p R L) \<noteq> None"
  proof (cases "lastWith R x")
    case None
    with x have "x \<in> pio ` set L" by (auto simp: lastWith_None_iff)
    then obtain r0 where "r0 \<in> set L" "pio r0 = x" by auto
    then have "find (\<lambda>r. pio r = x) L \<noteq> None" unfolding find_None_iff by blast
    with None show ?thesis by (simp add: find_reconcile)
  next
    case (Some e) then show ?thesis by (simp add: find_reconcile)
  qed
  then obtain r where "find (\<lambda>r. pio r = x) (reconcile p R L) = Some r" by blast
  from find_SomeD[OF this] show "x \<in> pio ` set (reconcile p R L)" by auto
qed

lemma bulkPut_Nil [simp]: "bulkPut [] t = t"
  by (simp add: bulkPut_def)

lemma bulkPut_Cons [simp]: "bulkPut (x # xs) t = bulkPut xs (table_put x t)"
  by (simp add: bulkPut_def)

lemma bulkPut_append: "bulkPut (xs @ ys) t = bulkPut ys (bulkPut xs t)"
  by (simp add: bulkPut_def)

lemma bulkPut_snoc: "bulkPut (xs @ [x]) t = table_put x (bulkPut xs t)"
  by (simp add: bulkPut_def)

lemma table_put_Some: "table_put (Some k, v) t = table_store k v t"
  by (simp add: table_put_def)

lemma table_put_None: "table_put (None, v) t = table_store (nextKey t) v t"
  by (simp add: table_put_def)

lemma wf_table_store: "wf_table t \<Longrightarrow> wf_table (table_store k v t)"
  by (auto simp: wf_table_def table_store_def)

lemma wf_table_put: "wf_table t \<Longrightarrow> wf_table (table_put x t)"
  by (cases x; cases "fst x") (auto simp: table_put_def wf_table_store)

lemma wf_bulkPut: "wf_table t \<Longrightarrow> wf_table (bulkPut xs t)"
  by (induction xs arbitrary: t) (simp_all add: wf_table_put)

lemma table_store_same:
  "k < nextKey t \<Longrightarrow> rows t k = Some v \<Longrightarrow> table_store k v t = t"
  by (cases t) (auto simp: table_store_def fun_upd_idem max_def)

lemma bulkPut_stored:
  "\<forall>r\<in>set xs. \<exists>k. fst r = Some k \<and> k < nextKey t \<and> rows t k = Some (snd r) \<Longrightarrow> bulkPut xs t = t"
proof (induction xs)
  case Nil then show ?case by simp
next
  case (Cons x xs)
  then obtain k where "fst x = Some k" "k < nextKey t" "rows t k = Some (snd x)" by auto
  then have "table_put x t = t" by (simp add: table_put_def table_store_same)
  with Cons show ?case by simp
qed

lemma bulkPut_keyed:
  assumes "\<forall>r\<in>set A. \<exists>k. fst r = Some k \<and> k < nextKey t"
  shows "nextKey (bulkPut A t) = nextKey t"
    and "Some k \<notin> fst ` set A \<Longrightarrow> rows (bulkPut A t) k = rows t k"
    and "distinct (map fst A) \<Longrightarrow> (Some k, v) \<in> set A \<Longrightarrow> rows (bulkPut A t) k = Some v"
  using assms
proof (induction A rule: rev_induct)
  case Nil
  { case 1 show ?case by simp }
  { case 2 show ?case by simp }
  { case 3 then show ?case by simp }
next
  case (snoc x A)
  { case 1
    then obtain k' where k': "fst x = Some k'" "k' < nextKey t" by auto
    from 1 have "\<forall>r\<in>set A. \<exists>k. fst r = Some k \<and> k < nextKey t" by simp
    from snoc.IH(1)[OF this] k' show ?case
      by (simp add: bulkPut_snoc table_put_def table_store_def max_def) }
  { case 2
    then obtain k' where k': "fst x = Some k'" "k' \<noteq> k" by force
    from 2 have "\<forall>r\<in>set A. \<exists>k. fst r = Some k \<and> k < nextKey t" "Some k \<notin> fst ` set A" by auto
    from snoc.IH(2)[OF this(2,1)] k' show ?case
      by (simp add: bulkPut_snoc table_put_def table_store_def) }
  { case 3
    then obtain k' where k': "fst x = Some k'" by auto
    from 3 have A: "\<forall>r\<in>set A. \<exists>k. fst r = Some k \<and> k < nextKey t" "distinct (map fst A)"
      and nin: "fst x \<notin> fst ` set A" by auto
    show ?case
    proof (cases "(Some k, v) = x")
      case True
      then show ?thesis by (auto simp: bulkPut_snoc table_put_def table_store_def)
    next
      case False
      with 3 have mem: "(Some k, v) \<in> set A" by auto
      with nin k' have "k' \<noteq> k" by force
      with snoc.IH(3)[OF A(2) mem A(1)] k' show ?thesis
        by (simp add: bulkPut_snoc table_put_def table_store_def)
    qed }
qed

lemma bulkPut_unkeyed:
  assumes "\<forall>r\<in>set N. fst r = None"
  shows "nextKey (bulkPut N t) = nextKey t + length N
       \<and> (\<forall>k. rows (bulkPut N t) k =
            (if nextKey t \<le> k \<and> k < nextKey t + length N then Some (snd (N ! (k - nextKey t)))
             else rows t k))"
  using assms
proof (induction N rule: rev_induct)
  case Nil then show ?case by auto
next
  case (snoc x N)
  then have IH: "nextKey (bulkPut N t) = nextKey t + length N"
    "\<And>k. rows (bulkPut N t) k =
            (if nextKey t \<le> k \<and> k < nextKey t + length N then Some (snd (N ! (k - nextKey t)))
             else rows t k)"
    and x: "fst x = None" by auto
  show ?case
    unfolding bulkPut_snoc table_put_def x
    by (auto simp: table_store_def IH nth_append max_def)
qed

lemma bulkPut_reconciled:
  assumes keys: "\<forall>r\<in>set L. \<exists>k. fst r = Some k \<and> k < nextKey t"
    and dist: "distinct (map fst L)"
    and X: "X = A @ N" "map fst A = map fst L" "\<forall>r\<in>set N. fst r = None"
  shows "nextKey (bulkPut X t) = nextKey t + length N"
    and "\<And>k v. (Some k, v) \<in> set A \<Longrightarrow> rows (bulkPut X t) k = Some v"
    and "\<And>k. k < nextKey t \<Longrightarrow> Some k \<notin> fst ` set L \<Longrightarrow> rows (bulkPut X t) k = rows t k"
    and "\<And>k. nextKey t \<le> k \<Longrightarrow> k < nextKey t + length N \<Longrightarrow>
            rows (bulkPut X t) k = Some (snd (N ! (k - nextKey t)))"
    and "\<And>k. nextKey t + length N \<le> k \<Longrightarrow> rows (bulkPut X t) k = rows t k"
proof -
  have setA: "fst ` set A = fst ` set L" using X(2) by (metis list.set_map)
  have keysA: "\<forall>r\<in>set A. \<exists>k. fst r = Some k \<and> k < nextKey t"
  proof
    fix r assume "r \<in> set A"
    then have "fst r \<in> fst ` set L" using setA by blast
    with keys show "\<exists>k. fst r = Some k \<and> k < nextKey t" by auto
  qed
  have distA: "distinct (map fst A)" using dist X(2) by simp
  let ?t1 = "bulkPut A t"
  have n1: "nextKey ?t1 = nextKey t" by (rule bulkPut_keyed(1)[OF keysA])
  note N = bulkPut_unkeyed[OF X(3), of ?t1, unfolded n1]
  have split: "bulkPut X t = bulkPut N ?t1" by (simp add: X(1) bulkPut_append)
  show "nextKey (bulkPut X t) = nextKey t + length N" using N by (simp add: split)
  { fix k v assume kv: "(Some k, v) \<in> set A"
    with keysA have "k < nextKey t" by force
    moreover have "rows ?t1 k = Some v" by (rule bulkPut_keyed(3)[OF keysA distA kv])
    ultimately show "rows (bulkPut X t) k = Some v" using N by (simp add: split) }
  { fix k assume "k < nextKey t" "Some k \<notin> fst ` set L"
    moreover from this(2) setA have "rows ?t1 k = rows t k"
      by (intro bulkPut_keyed(2)[OF keysA]) simp
    ultimately show "rows (bulkPut X t) k = rows t k" using N by (simp add: split) }
  { fix k assume "nextKey t \<le> k" "k < nextKey t + length N"
    then show "rows (bulkPut X t) k = Some (snd (N ! (k - nextKey t)))" using N by (simp add: split) }
  { fix k assume k: "nextKey t + length N \<le> k"
    then have "Some k \<notin> fst ` set A" using keysA by force
    then have "rows ?t1 k = rows t k" by (rule bulkPut_keyed(2)[OF keysA])
    with k show "rows (bulkPut X t) k = rows t k" using N by (simp add: split) }
qed

lemma wf_table_visible: "wf_table t \<Longrightarrow> rows t k = Some v \<Longrightarrow> k < nextKey t"
  unfolding wf_table_def by (metis not_le option.distinct(1))

lemma store_getEpisodes_eq:
  "store_getEpisodes pid db =
     array_sort (sorter Backward (\<lambda>r. e_pubDate (snd r)))
       (rev (filter (\<lambda>r. e_podcastId (snd r) = pid) (toArray (episodes db))))"
  by (simp add: store_getEpisodes_def sortBy_def reverse_def where_equals_def)

lemma distinct_store_getEpisodes: "distinct (map fst (store_getEpisodes pid db))"
proof -
  let ?xs = "filter (\<lambda>r. e_podcastId (snd r) = pid) (toArray (episodes db))"
  have "distinct (map fst ?xs)"
    using distinct_toArray_keys[of "episodes db"] by (simp add: distinct_map_filter)
  then have "distinct (map fst (rev ?xs))" by (simp add: distinct_map)
  then show ?thesis unfolding store_getEpisodes_eq by (simp only: distinct_map_array_sort)
qed

lemma storedEpisodesOf_iff:
  "(ko, v) \<in> set (storedEpisodesOf pid db) \<longleftrightarrow>
     (\<exists>k. ko = Some k \<and> k < nextKey (episodes db) \<and> rows (episodes db) k = Some v \<and> e_podcastId v = pid)"
proof
  assume "(ko, v) \<in> set (storedEpisodesOf pid db)"
  then obtain r where "r \<in> set (store_getEpisodes pid db)" "ko = Some (fst r)" "v = snd r"
    by (auto simp: storedEpisodesOf_def)
  moreover from this(1) have "(fst r, snd r) \<in> set (store_getEpisodes pid db)" by simp
  ultimately show "\<exists>k. ko = Some k \<and> k < nextKey (episodes db) \<and> rows (episodes db) k = Some v
      \<and> e_podcastId v = pid"
    unfolding store_getEpisodes_iff by blast
next
  assume "\<exists>k. ko = Some k \<and> k < nextKey (episodes db) \<and> rows (episodes db) k = Some v
      \<and> e_podcastId v = pid"
  then obtain k where k: "ko = Some k" "(k, v) \<in> set (store_getEpisodes pid db)"
    unfolding store_getEpisodes_iff by blast
  from k(2) have "(Some (fst (k, v)), snd (k, v)) \<in> set (storedEpisodesOf pid db)"
    unfolding storedEpisodesOf_def set_map by (rule imageI)
  with k(1) show "(ko, v) \<in> set (storedEpisodesOf pid db)" by simp
qed

lemma distinct_storedEpisodesOf: "distinct (map fst (storedEpisodesOf pid db))"
proof -
  have "map fst (storedEpisodesOf pid db) = map Some (map fst (store_getEpisodes pid db))"
    by (simp add: storedEpisodesOf_def comp_def)
  moreover have "distinct (map Some (map fst (store_getEpisodes pid db)))"
    using distinct_store_getEpisodes[of pid db] by (subst distinct_map) simp
  ultimately show ?thesis by simp
qed

lemma storedEpisodesOf_keys:
  "\<forall>r\<in>set (storedEpisodesOf pid db). \<exists>k. fst r = Some k \<and> k < nextKey (episodes db)"
proof
  fix r assume "r \<in> set (storedEpisodesOf pid db)"
  then have "(fst r, snd r) \<in> set (storedEpisodesOf pid db)" by simp
  then show "\<exists>k. fst r = Some k \<and> k < nextKey (episodes db)"
    unfolding storedEpisodesOf_iff by blast
qed

lemma storedEpisodesOf_podcastId:
  "\<forall>r\<in>set (storedEpisodesOf pid db). e_podcastId (snd r) = pid"
proof
  fix r assume "r \<in> set (storedEpisodesOf pid db)"
  then have "(fst r, snd r) \<in> set (storedEpisodesOf pid db)" by simp
  then show "e_podcastId (snd r) = pid" unfolding storedEpisodesOf_iff by blast
qed

lemma store_getPodcast_resolves:
  assumes "wf_database db" and "(pid, P) \<in> set (store_getPodcasts db)"
  shows "store_getPodcast (p_feedUrl P) db = Some (pid, P)"
proof -
  from assms(2) have v: "pid < nextKey (podcasts db)" "rows (podcasts db) pid = Some P"
    by (simp_all add: store_getPodcasts_def toArray_iff)
  have "filter (\<lambda>r. p_feedUrl (snd r) = p_feedUrl P) (toArray (podcasts db)) = [(pid, P)]"
  proof (rule filter_toArray_single[OF v])
    show "p_feedUrl (snd (pid, P)) = p_feedUrl P" by simp
    show "\<forall>k' r'. k' < nextKey (podcasts db) \<and> rows (podcasts db) k' = Some r'
            \<and> p_feedUrl (snd (k', r')) = p_feedUrl P \<longrightarrow> k' = pid"
      using assms(1) v(2) unfolding wf_database_def feedUrl_unique_def by auto
  qed
  then show ?thesis by (simp add: store_getPodcast_eq)
qed

lemma refreshPodcast_failed:
  "getEpisodes c (p_feedUrl (snd podcast)) = Inl err \<Longrightarrow> refreshPodcast c podcast db = db"
  by (simp add: refreshPodcast_def)

lemma refreshPodcast_fetched:
  assumes "wf_database db" and "(pid, P) \<in> set (store_getPodcasts db)"
    and "getEpisodes c (p_feedUrl P) = Inr R"
  shows "refreshPodcast c (pid, P) db =
           db\<lparr>episodes := bulkPut (reconcile pid R (storedEpisodesOf pid db)) (episodes db)\<rparr>"
  using assms(3) store_getPodcast_resolves[OF assms(1,2)]
  by (simp add: refreshPodcast_def ctrl_getEpisodes_def storedEpisodesOf_def reconcile_def
      store_putEpisodes_def Let_def)

lemma refresh_rows:
  fixes db :: database and pid :: nat and R :: "PodcastIndexOrgEpisode list"
  assumes wf: "wf_table (episodes db)"
  defines "X \<equiv> reconcile pid R (storedEpisodesOf pid db)"
  shows "(\<exists>f. (\<forall>i<length X. rows (bulkPut X (episodes db)) (f i) = Some (snd (X ! i)) \<and> f i < nextKey (bulkPut X (episodes db))
                 \<and> (\<forall>k. fst (X ! i) = Some k \<longrightarrow> f i = k)
                 \<and> (fst (X ! i) = None \<longrightarrow> nextKey (episodes db) \<le> f i))
            \<and> (\<forall>k v'. rows (bulkPut X (episodes db)) k = Some v' \<and> e_podcastId v' = pid \<longrightarrow> (\<exists>i<length X. k = f i)))
       \<and> nextKey (episodes db) \<le> nextKey (bulkPut X (episodes db))
       \<and> wf_table (bulkPut X (episodes db))
       \<and> (\<forall>k v. e_podcastId v \<noteq> pid \<longrightarrow> (rows (bulkPut X (episodes db)) k = Some v \<longleftrightarrow> rows (episodes db) k = Some v))"
proof -
  let ?t = "episodes db" and ?L = "storedEpisodesOf pid db"
  let ?n = "nextKey ?t"
  obtain A N where X: "X = A @ N" "map fst A = map fst ?L" "\<forall>r\<in>set N. fst r = None"
    unfolding X_def using struct_reconcile by blast
  define t' where "t' = bulkPut X (episodes db)"
  note bp = bulkPut_reconciled[OF storedEpisodesOf_keys distinct_storedEpisodesOf X, folded t'_def]
  have lenA: "length A = length ?L" using X(2) by (metis length_map)
  have keyA: "\<exists>k. fst (A ! i) = Some k \<and> k < ?n" if "i < length A" for i
  proof -
    from that lenA have "fst (A ! i) = fst (?L ! i)"
      using X(2) by (metis nth_map)
    moreover from that lenA have "?L ! i \<in> set ?L" by simp
    ultimately have "fst (A ! i) = fst (?L ! i)" "?L ! i \<in> set ?L" by simp_all
    with storedEpisodesOf_keys[of pid db] show ?thesis by auto
  qed
  have pidX: "e_podcastId (snd r) = pid" if "r \<in> set X" for r
    using podcastId_reconcile[where L="?L" and p=pid and R=R and r'=r]
      storedEpisodesOf_podcastId[of pid db] that
    unfolding X_def by blast
  have n': "?n \<le> nextKey t'" using bp(1) by simp
  have wf': "wf_table t'" unfolding t'_def by (rule wf_bulkPut[OF wf])
  define f where "f i = (if i < length A then the (fst (A ! i)) else ?n + (i - length A))" for i
  have pos: "rows t' (f i) = Some (snd (X ! i)) \<and> f i < nextKey t'
                 \<and> (\<forall>k. fst (X ! i) = Some k \<longrightarrow> f i = k)
                 \<and> (fst (X ! i) = None \<longrightarrow> ?n \<le> f i)" if i: "i < length X" for i
  proof (cases "i < length A")
    case True
    from keyA[OF True] obtain k where k: "fst (A ! i) = Some k" "k < ?n" by blast
    then have "(Some k, snd (A ! i)) \<in> set A" using True by (metis nth_mem prod.collapse)
    from bp(2)[OF this] k True n' show ?thesis by (simp add: f_def X(1) nth_append)
  next
    case False
    with i have j: "i - length A < length N" by (simp add: X(1))
    then have "N ! (i - length A) \<in> set N" by simp
    with X(3) have "fst (N ! (i - length A)) = None" by blast
    moreover have "rows t' (?n + (i - length A)) = Some (snd (N ! (i - length A)))"
      using bp(4)[of "?n + (i - length A)"] j by simp
    ultimately show ?thesis using False j bp(1) by (auto simp: f_def X(1) nth_append)
  qed
  have cov: "\<exists>i<length X. k = f i" if kv: "rows t' k = Some v'" "e_podcastId v' = pid" for k v'
  proof -
    consider (old) "k < ?n" | (new) "?n \<le> k" "k < ?n + length N" | (beyond) "?n + length N \<le> k"
      by linarith
    then show ?thesis
    proof cases
      case old
      show ?thesis
      proof (cases "Some k \<in> fst ` set ?L")
        case True
        then have "Some k \<in> set (map fst A)" using X(2) by simp
        then obtain i where "i < length A" "fst (A ! i) = Some k"
          by (auto simp: in_set_conv_nth)
        then show ?thesis by (intro exI[of _ i]) (simp add: f_def X(1))
      next
        case False
        from bp(3)[OF old False] kv have "rows ?t k = Some v'" by simp
        with old kv(2) have "(Some k, v') \<in> set ?L" by (simp add: storedEpisodesOf_iff)
        with False show ?thesis by force
      qed
    next
      case new
      define j where "j = k - ?n"
      with new have j: "j < length N" "k = ?n + j" by simp_all
      show ?thesis by (intro exI[of _ "length A + j"]) (simp add: f_def X(1) j)
    next
      case beyond
      from bp(5)[OF beyond] kv have "rows ?t k = Some v'" by simp
      from wf_table_visible[OF wf this] beyond show ?thesis by simp
    qed
  qed
  from pos cov have ex: "\<exists>f. (\<forall>i<length X. rows t' (f i) = Some (snd (X ! i)) \<and> f i < nextKey t'
                 \<and> (\<forall>k. fst (X ! i) = Some k \<longrightarrow> f i = k)
                 \<and> (fst (X ! i) = None \<longrightarrow> nextKey (episodes db) \<le> f i))
            \<and> (\<forall>k v'. rows t' k = Some v' \<and> e_podcastId v' = pid \<longrightarrow> (\<exists>i<length X. k = f i))"
    by (intro exI[of _ f]) blast
  have oth: "rows t' k = Some v \<longleftrightarrow> rows ?t k = Some v" if other: "e_podcastId v \<noteq> pid" for k v
  proof
    assume r: "rows t' k = Some v"
    consider (old) "k < ?n" | (new) "?n \<le> k" "k < ?n + length N" | (beyond) "?n + length N \<le> k"
      by linarith
    then show "rows ?t k = Some v"
    proof cases
      case old
      show ?thesis
      proof (cases "Some k \<in> fst ` set ?L")
        case True
        then have "Some k \<in> set (map fst A)" using X(2) by simp
        then obtain i where i: "i < length A" "fst (A ! i) = Some k"
          by (auto simp: in_set_conv_nth)
        then have "(Some k, snd (A ! i)) \<in> set A" by (metis nth_mem prod.collapse)
        from bp(2)[OF this] r have "v = snd (A ! i)" by simp
        moreover have "A ! i \<in> set X" using i(1) by (simp add: X(1))
        ultimately show ?thesis using pidX other by blast
      next
        case False
        from bp(3)[OF old False] r show ?thesis by simp
      qed
    next
      case new
      from bp(4)[OF new] r have "v = snd (N ! (k - ?n))" by simp
      moreover have "N ! (k - ?n) \<in> set X" using new by (simp add: X(1))
      ultimately show ?thesis using pidX other by blast
    next
      case beyond
      from bp(5)[OF beyond] r show ?thesis by simp
    qed
  next
    assume r: "rows ?t k = Some v"
    from wf_table_visible[OF wf r] have old: "k < ?n" .
    have "Some k \<notin> fst ` set ?L"
    proof
      assume "Some k \<in> fst ` set ?L"
      then obtain v0 where "(Some k, v0) \<in> set ?L" by force
      then have "rows ?t k = Some v0" "e_podcastId v0 = pid" by (simp_all add: storedEpisodesOf_iff)
      with r other show False by simp
    qed
    from bp(3)[OF old this] r show "rows t' k = Some v" by simp
  qed
  from ex n' wf' oth show ?thesis unfolding t'_def by blast
qed

lemma refresh_positions:
  fixes db :: database and pid :: nat and R :: "PodcastIndexOrgEpisode list"
  assumes wf: "wf_table (episodes db)"
  defines "X \<equiv> reconcile pid R (storedEpisodesOf pid db)"
  obtains f where
    "\<And>i. i < length X \<Longrightarrow> rows (bulkPut X (episodes db)) (f i) = Some (snd (X ! i))"
    "\<And>i. i < length X \<Longrightarrow> f i < nextKey (bulkPut X (episodes db))"
    "\<And>i k. i < length X \<Longrightarrow> fst (X ! i) = Some k \<Longrightarrow> f i = k"
    "\<And>i. i < length X \<Longrightarrow> fst (X ! i) = None \<Longrightarrow> nextKey (episodes db) \<le> f i"
    "\<And>k v'. rows (bulkPut X (episodes db)) k = Some v' \<Longrightarrow> e_podcastId v' = pid
        \<Longrightarrow> \<exists>i<length X. k = f i"
proof -
  from refresh_rows[OF wf, of pid R, folded X_def] obtain f where
    f: "\<forall>i<length X. rows (bulkPut X (episodes db)) (f i) = Some (snd (X ! i))
               \<and> f i < nextKey (bulkPut X (episodes db))
               \<and> (\<forall>k. fst (X ! i) = Some k \<longrightarrow> f i = k)
               \<and> (fst (X ! i) = None \<longrightarrow> nextKey (episodes db) \<le> f i)"
      "\<forall>k v'. rows (bulkPut X (episodes db)) k = Some v' \<and> e_podcastId v' = pid
           \<longrightarrow> (\<exists>i<length X. k = f i)"
    by blast
  show thesis
  proof (rule that[of f])
    fix i assume "i < length X"
    with f(1) show "rows (bulkPut X (episodes db)) (f i) = Some (snd (X ! i))"
      "f i < nextKey (bulkPut X (episodes db))" by blast+
  next
    fix i k assume "i < length X" "fst (X ! i) = Some k"
    with f(1) show "f i = k" by blast
  next
    fix i assume "i < length X" "fst (X ! i) = None"
    with f(1) show "nextKey (episodes db) \<le> f i" by blast
  next
    fix k v' assume "rows (bulkPut X (episodes db)) k = Some v'" "e_podcastId v' = pid"
    with f(2) show "\<exists>i<length X. k = f i" by blast
  qed
qed

lemma find_unique:
  "x \<in> set xs \<Longrightarrow> P x \<Longrightarrow> (\<forall>y\<in>set xs. P y \<longrightarrow> y = x) \<Longrightarrow> find P xs = Some x"
proof (induction xs)
  case Nil then show ?case by simp
next
  case (Cons a xs)
  show ?case
  proof (cases "P a")
    case True
    with Cons.prems(3) have "a = x" by (meson list.set_intros(1))
    with True show ?thesis by simp
  next
    case False
    with Cons.prems(1,2) have "x \<in> set xs" by auto
    moreover have "\<forall>y\<in>set xs. P y \<longrightarrow> y = x" using Cons.prems(3) by (meson list.set_intros(2))
    ultimately have "find P xs = Some x" using Cons.IH Cons.prems(2) by blast
    with False show ?thesis by simp
  qed
qed

lemma filter_toArray_cong:
  assumes "\<And>k v. P (k, v) \<Longrightarrow> (k < nextKey t' \<and> rows t' k = Some v) \<longleftrightarrow> (k < nextKey t \<and> rows t k = Some v)"
  shows "filter P (toArray t') = filter P (toArray t)"
proof (rule map_sorted_distinct_set_unique[where f = fst])
  let ?xs = "filter P (toArray t')" and ?ys = "filter P (toArray t)"
  have s: "set ?xs = set ?ys"
  proof (intro equalityI subsetI)
    fix r assume r: "r \<in> set ?xs"
    obtain k v where kv: "r = (k, v)" by (cases r)
    from r kv have "P (k, v)" "k < nextKey t' \<and> rows t' k = Some v" by (simp_all add: toArray_iff)
    with assms[of k v] have "k < nextKey t \<and> rows t k = Some v" by blast
    with \<open>P (k, v)\<close> kv show "r \<in> set ?ys" by (simp add: toArray_iff)
  next
    fix r assume r: "r \<in> set ?ys"
    obtain k v where kv: "r = (k, v)" by (cases r)
    from r kv have "P (k, v)" "k < nextKey t \<and> rows t k = Some v" by (simp_all add: toArray_iff)
    with assms[of k v] have "k < nextKey t' \<and> rows t' k = Some v" by blast
    with \<open>P (k, v)\<close> kv show "r \<in> set ?xs" by (simp add: toArray_iff)
  qed
  show "set ?xs = set ?ys" by (rule s)
  show dx: "distinct (map fst ?xs)" using distinct_toArray_keys[of t'] by (simp add: distinct_map_filter)
  show "distinct (map fst ?ys)" using distinct_toArray_keys[of t] by (simp add: distinct_map_filter)
  show "sorted (map fst ?xs)" using sorted_toArray[of t'] by (simp add: sorted_map sorted_wrt_filter)
  show "sorted (map fst ?ys)" using sorted_toArray[of t] by (simp add: sorted_map sorted_wrt_filter)
  from dx have "inj_on fst (set ?xs)" by (simp add: distinct_map)
  then show "inj_on fst (set ?xs \<union> set ?ys)" unfolding s[symmetric] by simp
qed

lemma storedEpisodesOf_cong:
  assumes "\<And>k v. e_podcastId v = pid \<Longrightarrow>
      (k < nextKey (episodes db') \<and> rows (episodes db') k = Some v)
        \<longleftrightarrow> (k < nextKey (episodes db) \<and> rows (episodes db) k = Some v)"
  shows "storedEpisodesOf pid db' = storedEpisodesOf pid db"
proof -
  have "filter (\<lambda>r. e_podcastId (snd r) = pid) (toArray (episodes db'))
      = filter (\<lambda>r. e_podcastId (snd r) = pid) (toArray (episodes db))"
    by (rule filter_toArray_cong) (use assms in simp)
  then show ?thesis by (simp add: storedEpisodesOf_def store_getEpisodes_eq)
qed

lemma visible_iff: "wf_table t \<Longrightarrow> (k < nextKey t \<and> rows t k = Some v) \<longleftrightarrow> rows t k = Some v"
  by (auto dest: wf_table_visible)

lemma refresh_fetched:
  assumes wf: "wf_database db" and mem: "(pid, P) \<in> set (store_getPodcasts db)"
    and fetch: "getEpisodes c (p_feedUrl P) = Inr R"
  defines "db' \<equiv> refreshPodcast c (pid, P) db"
  shows "podcasts db' = podcasts db"
    and "wf_database db'"
    and "nextKey (episodes db) \<le> nextKey (episodes db')"
    and "\<And>k v. e_podcastId v \<noteq> pid \<Longrightarrow> rows (episodes db') k = Some v \<longleftrightarrow> rows (episodes db) k = Some v"
    and "\<And>q. q \<noteq> pid \<Longrightarrow> storedEpisodesOf q db' = storedEpisodesOf q db"
proof -
  have eq: "db' = db\<lparr>episodes := bulkPut (reconcile pid R (storedEpisodesOf pid db)) (episodes db)\<rparr>"
    unfolding db'_def by (rule refreshPodcast_fetched[OF wf mem fetch])
  from wf have wfe: "wf_table (episodes db)" by (simp add: wf_database_def)
  note rr = refresh_rows[OF wfe, of pid R]
  show 1: "podcasts db' = podcasts db" by (simp add: eq)
  from rr have wfe': "wf_table (episodes db')" by (simp add: eq)
  with wf show "wf_database db'" by (simp add: wf_database_def 1)
  from rr show "nextKey (episodes db) \<le> nextKey (episodes db')" by (simp add: eq)
  show oth: "rows (episodes db') k = Some v \<longleftrightarrow> rows (episodes db) k = Some v"
    if "e_podcastId v \<noteq> pid" for k v
    using rr that by (simp add: eq)
  show "storedEpisodesOf q db' = storedEpisodesOf q db" if "q \<noteq> pid" for q
  proof (rule storedEpisodesOf_cong)
    fix k and v :: Episode assume "e_podcastId v = q"
    with that have "e_podcastId v \<noteq> pid" by simp
    from oth[OF this, of k] show "(k < nextKey (episodes db') \<and> rows (episodes db') k = Some v)
        \<longleftrightarrow> (k < nextKey (episodes db) \<and> rows (episodes db) k = Some v)"
      unfolding visible_iff[OF wfe] visible_iff[OF wfe'] .
  qed
qed

lemma pio_map_reconcile_matched:
  "\<forall>e\<in>set R. pie_id e \<in> pio ` set L \<Longrightarrow> map pio (reconcile p R L) = map pio L"
proof (induction R arbitrary: L)
  case Nil then show ?case by simp
next
  case (Cons e R)
  let ?L' = "reconcileEpisode p L e"
  have m: "map pio ?L' = map pio L"
  proof (cases p L e rule: reconcileEpisode_cases)
    case (match i)
    then show ?thesis by (simp add: map_update list_update_same_conv)
  next
    case new
    with Cons.prems show ?thesis by auto
  qed
  then have "pio ` set ?L' = pio ` set L" by (metis list.set_map)
  with Cons.prems have "\<forall>e\<in>set R. pie_id e \<in> pio ` set ?L'" by simp
  from Cons.IH[OF this] m show ?case by simp
qed

lemma find_distinct_map:
  assumes "distinct (map f xs)" and "x \<in> set xs"
  shows "find (\<lambda>y. f y = f x) xs = Some x"
proof (rule find_unique[OF assms(2)])
  show "f x = f x" by simp
  from assms(1) have "inj_on f (set xs)" by (simp add: distinct_map)
  with assms(2) show "\<forall>y\<in>set xs. f y = f x \<longrightarrow> y = x" by (auto dest: inj_onD)
qed

lemma reconcile_fixpoint:
  assumes d: "distinct (map pio L)"
    and all: "\<forall>e\<in>set R. pie_id e \<in> pio ` set L"
    and fp: "\<forall>r\<in>set L. \<forall>e. lastWith R (pio r) = Some e \<longrightarrow> spreadOver r (mapped e) = r"
  shows "reconcile p R L = L"
proof (rule nth_equalityI)
  let ?Y = "reconcile p R L"
  have m: "map pio ?Y = map pio L" by (rule pio_map_reconcile_matched[OF all])
  then show len: "length ?Y = length L" by (metis length_map)
  fix i assume i: "i < length ?Y"
  with len have iL: "i < length L" by simp
  let ?x = "pio (L ! i)"
  from m i iL have px: "pio (?Y ! i) = ?x" by (metis nth_map)
  have dY: "distinct (map pio ?Y)" using d m by simp
  have "find (\<lambda>r. pio r = pio (?Y ! i)) ?Y = Some (?Y ! i)"
    by (rule find_distinct_map[OF dY]) (use i in simp)
  then have fY: "find (\<lambda>r. pio r = ?x) ?Y = Some (?Y ! i)" by (simp add: px)
  have fL: "find (\<lambda>r. pio r = ?x) L = Some (L ! i)"
    by (rule find_distinct_map[OF d]) (use iL in simp)
  show "?Y ! i = L ! i"
  proof (cases "lastWith R ?x")
    case None
    with fY fL show ?thesis by (simp add: find_reconcile)
  next
    case (Some e)
    with fp iL have "spreadOver (L ! i) (mapped e) = L ! i" by simp
    with fY fL Some show ?thesis by (simp add: find_reconcile)
  qed
qed

lemma snd_spreadOver_key: "snd (spreadOver (k, v) m) = snd (spreadOver (k', v) m)"
  by (simp add: spreadOver_def)

lemma spreadOver_idem_key:
  "spreadOver r m = r \<Longrightarrow> spreadOver (k, snd r) m = (k, snd r)"
  by (cases r) (simp add: spreadOver_def)

lemma refresh_settles:
  assumes wf: "wf_database db" and mem: "(pid, P) \<in> set (store_getPodcasts db)"
    and fetch: "getEpisodes c (p_feedUrl P) = Inr R"
    and dd: "directoryIds_distinct db"
  defines "db' \<equiv> refreshPodcast c (pid, P) db"
  shows "directoryIds_distinct db'"
    and "reconcile pid R (storedEpisodesOf pid db') = storedEpisodesOf pid db'"
proof -
  let ?L = "storedEpisodesOf pid db" and ?L' = "storedEpisodesOf pid db'"
  let ?X = "reconcile pid R ?L"
  have eq: "db' = db\<lparr>episodes := bulkPut ?X (episodes db)\<rparr>"
    unfolding db'_def by (rule refreshPodcast_fetched[OF wf mem fetch])
  from wf have wfe: "wf_table (episodes db)" by (simp add: wf_database_def)
  note rf = refresh_fetched[OF wf mem fetch, folded db'_def]
  from rf(2) have wfe': "wf_table (episodes db')" by (simp add: wf_database_def)
  have ep: "episodes db' = bulkPut ?X (episodes db)" by (simp add: eq)
  obtain f where
    pos: "\<And>i. i < length ?X \<Longrightarrow> rows (episodes db') (f i) = Some (snd (?X ! i))"
    and cov: "\<And>k v'. rows (episodes db') k = Some v' \<Longrightarrow> e_podcastId v' = pid \<Longrightarrow> \<exists>i<length ?X. k = f i"
    unfolding ep using refresh_positions[OF wfe, of pid R] by metis
  have dL: "distinct (map pio ?L)"
  proof -
    have "distinct ?L" using distinct_storedEpisodesOf[of pid db] by (simp add: distinct_map)
    moreover have "inj_on pio (set ?L)"
    proof (rule inj_onI)
      fix r1 r2 assume r: "r1 \<in> set ?L" "r2 \<in> set ?L" "pio r1 = pio r2"
      obtain k1 v1 k2 v2 where e: "r1 = (k1, v1)" "r2 = (k2, v2)" by (cases r1, cases r2) auto
      from r(1,2) obtain j1 j2 where j: "k1 = Some j1" "rows (episodes db) j1 = Some v1" "e_podcastId v1 = pid"
          "k2 = Some j2" "rows (episodes db) j2 = Some v2" "e_podcastId v2 = pid"
        unfolding e storedEpisodesOf_iff by blast
      with dd r(3) e have "j1 = j2" unfolding directoryIds_distinct_def by (metis snd_conv)
      with j e show "r1 = r2" by simp
    qed
    ultimately show ?thesis by (simp add: distinct_map)
  qed
  have dX: "distinct (map pio ?X)" by (rule distinct_reconcile[OF dL])
  show dd': "directoryIds_distinct db'"
    unfolding directoryIds_distinct_def
  proof (intro allI impI, elim conjE)
    fix k1 k2 e1 e2
    assume a: "rows (episodes db') k1 = Some e1" "rows (episodes db') k2 = Some e2"
      "e_podcastId e1 = e_podcastId e2" "e_podcastIndexOrgId e1 = e_podcastIndexOrgId e2"
    show "k1 = k2"
    proof (cases "e_podcastId e1 = pid")
      case False
      with a(3) have "e_podcastId e2 \<noteq> pid" by simp
      with False a(1,2) rf(4) have "rows (episodes db) k1 = Some e1" "rows (episodes db) k2 = Some e2"
        by blast+
      with dd a(3,4) show ?thesis unfolding directoryIds_distinct_def by blast
    next
      case True
      with a(3) have "e_podcastId e2 = pid" by simp
      from cov[OF a(1) True] cov[OF a(2) this] obtain i1 i2 where
        i: "i1 < length ?X" "k1 = f i1" "i2 < length ?X" "k2 = f i2" by blast
      from pos[OF i(1)] pos[OF i(3)] a(1,2) i(2,4) have "e1 = snd (?X ! i1)" "e2 = snd (?X ! i2)"
        by simp_all
      with a(4) have "map pio ?X ! i1 = map pio ?X ! i2" using i(1,3) by simp
      moreover have "i1 < length (map pio ?X)" "i2 < length (map pio ?X)" using i(1,3) by simp_all
      ultimately have "i1 = i2" using dX nth_eq_iff_index_eq by blast
      with i(2,4) show ?thesis by simp
    qed
  qed
  show "reconcile pid R ?L' = ?L'"
  proof (rule reconcile_fixpoint)
    show dL': "distinct (map pio ?L')"
    proof -
      have "distinct ?L'" using distinct_storedEpisodesOf[of pid db'] by (simp add: distinct_map)
      moreover have "inj_on pio (set ?L')"
      proof (rule inj_onI)
        fix r1 r2 assume r: "r1 \<in> set ?L'" "r2 \<in> set ?L'" "pio r1 = pio r2"
        obtain k1 v1 k2 v2 where e: "r1 = (k1, v1)" "r2 = (k2, v2)" by (cases r1, cases r2) auto
        from r(1,2) obtain j1 j2 where j: "k1 = Some j1" "rows (episodes db') j1 = Some v1" "e_podcastId v1 = pid"
            "k2 = Some j2" "rows (episodes db') j2 = Some v2" "e_podcastId v2 = pid"
          unfolding e storedEpisodesOf_iff by blast
        with dd' r(3) e have "j1 = j2" unfolding directoryIds_distinct_def by (metis snd_conv)
        with j e show "r1 = r2" by simp
      qed
      ultimately show ?thesis by (simp add: distinct_map)
    qed
    show "\<forall>e\<in>set R. pie_id e \<in> pio ` set ?L'"
    proof
      fix e assume "e \<in> set R"
      then have "pie_id e \<in> pio ` set ?X" by (simp add: pio_set_reconcile)
      then obtain i where i: "i < length ?X" "pio (?X ! i) = pie_id e"
        by (auto simp: in_set_conv_nth)
      have "e_podcastId (snd (?X ! i)) = pid"
        by (rule podcastId_reconcile[where L="?L" and p=pid and R=R, OF storedEpisodesOf_podcastId])
          (use i(1) in simp)
      with pos[OF i(1)] wf_table_visible[OF wfe' pos[OF i(1)]]
      have "(Some (f i), snd (?X ! i)) \<in> set ?L'" by (simp add: storedEpisodesOf_iff)
      then have "pio (Some (f i), snd (?X ! i)) \<in> pio ` set ?L'" by (rule imageI)
      with i(2) show "pie_id e \<in> pio ` set ?L'" by simp
    qed
    show "\<forall>r\<in>set ?L'. \<forall>e. lastWith R (pio r) = Some e \<longrightarrow> spreadOver r (mapped e) = r"
    proof (intro ballI allI impI)
      fix r e assume r: "r \<in> set ?L'" and l: "lastWith R (pio r) = Some e"
      obtain ko v where kv: "r = (ko, v)" by (cases r)
      with r have "(ko, v) \<in> set ?L'" by simp
      then obtain k where k: "ko = Some k" "rows (episodes db') k = Some v" "e_podcastId v = pid"
        unfolding storedEpisodesOf_iff by blast
      from cov[OF k(2,3)] obtain i where i: "i < length ?X" "k = f i" by blast
      from pos[OF i(1)] k(2) i(2) have v: "v = snd (?X ! i)" by simp
      have "find (\<lambda>y. pio y = pio (?X ! i)) ?X = Some (?X ! i)"
        by (rule find_distinct_map[OF dX]) (use i(1) in simp)
      moreover have "pio (?X ! i) = pio r" by (simp add: kv v)
      ultimately have "find (\<lambda>y. pio y = pio r) ?X = Some (?X ! i)" by simp
      with l have xi: "?X ! i = (case find (\<lambda>y. pio y = pio r) ?L of
                                  Some r0 \<Rightarrow> spreadOver r0 (mapped e)
                                | None \<Rightarrow> withPodcastId (mapped e) pid)"
        by (simp add: find_reconcile)
      have "spreadOver (?X ! i) (mapped e) = ?X ! i"
        unfolding xi by (simp split: option.splits)
      from spreadOver_idem_key[OF this, of ko] show "spreadOver r (mapped e) = r"
        by (simp add: kv v)
    qed
  qed
qed

lemma refresh_own:
  assumes wf: "wf_database db" and mem: "(pid, P) \<in> set (store_getPodcasts db)"
    and fetch: "getEpisodes c (p_feedUrl P) = Inr R"
    and row: "rows (episodes db) k = Some v" and own: "e_podcastId v = pid"
  shows "\<exists>v'. rows (episodes (refreshPodcast c (pid, P) db)) k = Some v'
              \<and> (v' = v \<or> (\<exists>x\<in>set R. pie_id x = e_podcastIndexOrgId v
                                \<and> v' = snd (spreadOver (Some k, v) (mapped x))))"
proof -
  let ?L = "storedEpisodesOf pid db"
  let ?X = "reconcile pid R ?L"
  let ?db' = "refreshPodcast c (pid, P) db"
  have ep: "episodes ?db' = bulkPut ?X (episodes db)"
    by (simp add: refreshPodcast_fetched[OF wf mem fetch])
  from wf have wfe: "wf_table (episodes db)" by (simp add: wf_database_def)
  obtain f where
    pos: "\<And>i. i < length ?X \<Longrightarrow> rows (episodes ?db') (f i) = Some (snd (?X ! i))"
    and key: "\<And>i k. i < length ?X \<Longrightarrow> fst (?X ! i) = Some k \<Longrightarrow> f i = k"
    unfolding ep using refresh_positions[OF wfe, of pid R] by metis
  from row own wf_table_visible[OF wfe row] have inL: "(Some k, v) \<in> set ?L"
    by (simp add: storedEpisodesOf_iff)
  obtain A N where X: "?X = A @ N" "map fst A = map fst ?L"
    using struct_reconcile by blast
  from inL have "Some k \<in> set (map fst ?L)" by force
  with X(2) have "Some k \<in> set (map fst A)" by simp
  then obtain i where i: "i < length A" "fst (A ! i) = Some k" by (auto simp: in_set_conv_nth)
  then have iX: "i < length ?X" "fst (?X ! i) = Some k" by (simp_all add: X(1) nth_append)
  from pos[OF iX(1)] key[OF iX] have r': "rows (episodes ?db') k = Some (snd (?X ! i))" by simp
  from iX(1) have "?X ! i \<in> set ?X" by simp
  from set_reconcile[OF this] consider
      (old) r where "r \<in> set ?L" "derived R r (?X ! i)"
    | (new) x where "x \<in> set R" "?X ! i = withPodcastId (mapped x) pid"
    by blast
  then show ?thesis
  proof cases
    case new
    with iX(2) show ?thesis by simp
  next
    case old
    from derived_fst[OF old(2)] iX(2) have "fst r = Some k" by simp
    moreover from distinct_storedEpisodesOf[of pid db] have "inj_on fst (set ?L)"
      by (simp add: distinct_map)
    ultimately have "r = (Some k, v)" using old(1) inL inj_onD[of fst "set ?L" r "(Some k, v)"] by simp
    with old(2) have "?X ! i = (Some k, v) \<or> (\<exists>x\<in>set R. pie_id x = e_podcastIndexOrgId v
        \<and> ?X ! i = spreadOver (Some k, v) (mapped x))"
      by (simp add: derived_def)
    then have "snd (?X ! i) = v \<or> (\<exists>x\<in>set R. pie_id x = e_podcastIndexOrgId v
        \<and> snd (?X ! i) = snd (spreadOver (Some k, v) (mapped x)))"
      by (metis snd_conv)
    with r' show ?thesis by blast
  qed
qed

lemma refresh_matched:
  assumes wf: "wf_database db" and mem: "(pid, P) \<in> set (store_getPodcasts db)"
    and fetch: "getEpisodes c (p_feedUrl P) = Inr R" and x: "x \<in> set R"
    and found: "find (\<lambda>r. e_podcastIndexOrgId (snd r) = pie_id x) (storedEpisodesOf pid db) = Some (Some k, v)"
  shows "\<exists>x'. lastWith R (pie_id x) = Some x'
           \<and> rows (episodes (refreshPodcast c (pid, P) db)) k = Some (snd (spreadOver (Some k, v) (mapped x')))"
proof -
  let ?L = "storedEpisodesOf pid db"
  let ?X = "reconcile pid R ?L"
  let ?db' = "refreshPodcast c (pid, P) db"
  have ep: "episodes ?db' = bulkPut ?X (episodes db)"
    by (simp add: refreshPodcast_fetched[OF wf mem fetch])
  from wf have wfe: "wf_table (episodes db)" by (simp add: wf_database_def)
  obtain f where
    pos: "\<And>i. i < length ?X \<Longrightarrow> rows (episodes ?db') (f i) = Some (snd (?X ! i))"
    and key: "\<And>i k. i < length ?X \<Longrightarrow> fst (?X ! i) = Some k \<Longrightarrow> f i = k"
    unfolding ep using refresh_positions[OF wfe, of pid R] by metis
  from x obtain x' where x': "lastWith R (pie_id x) = Some x'"
    by (cases "lastWith R (pie_id x)") (auto simp: lastWith_None_iff)
  let ?s = "spreadOver (Some k, v) (mapped x')"
  from found x' have "find (\<lambda>r. pio r = pie_id x) ?X = Some ?s" by (simp add: find_reconcile)
  from find_SomeD[OF this] obtain i where i: "i < length ?X" "?X ! i = ?s"
    by (auto simp: in_set_conv_nth)
  then have "fst (?X ! i) = Some k" by simp
  from pos[OF i(1)] key[OF i(1) this] i(2) x' show ?thesis by simp
qed

lemma refresh_appended:
  assumes wf: "wf_database db" and mem: "(pid, P) \<in> set (store_getPodcasts db)"
    and fetch: "getEpisodes c (p_feedUrl P) = Inr R" and x: "x \<in> set R"
    and nomatch: "find (\<lambda>r. e_podcastIndexOrgId (snd r) = pie_id x) (storedEpisodesOf pid db) = None"
  shows "\<exists>k x'. nextKey (episodes db) \<le> k \<and> lastWith R (pie_id x) = Some x'
           \<and> rows (episodes (refreshPodcast c (pid, P) db)) k = Some (snd (withPodcastId (mapped x') pid))"
proof -
  let ?L = "storedEpisodesOf pid db"
  let ?X = "reconcile pid R ?L"
  let ?db' = "refreshPodcast c (pid, P) db"
  have ep: "episodes ?db' = bulkPut ?X (episodes db)"
    by (simp add: refreshPodcast_fetched[OF wf mem fetch])
  from wf have wfe: "wf_table (episodes db)" by (simp add: wf_database_def)
  obtain f where
    pos: "\<And>i. i < length ?X \<Longrightarrow> rows (episodes ?db') (f i) = Some (snd (?X ! i))"
    and new: "\<And>i. i < length ?X \<Longrightarrow> fst (?X ! i) = None \<Longrightarrow> nextKey (episodes db) \<le> f i"
    unfolding ep using refresh_positions[OF wfe, of pid R] by metis
  from x obtain x' where x': "lastWith R (pie_id x) = Some x'"
    by (cases "lastWith R (pie_id x)") (auto simp: lastWith_None_iff)
  let ?w = "withPodcastId (mapped x') pid"
  from nomatch x' have "find (\<lambda>r. pio r = pie_id x) ?X = Some ?w" by (simp add: find_reconcile)
  from find_SomeD[OF this] obtain i where i: "i < length ?X" "?X ! i = ?w"
    by (auto simp: in_set_conv_nth)
  then have "fst (?X ! i) = None" by simp
  from pos[OF i(1)] new[OF i(1) this] i(2) x' show ?thesis by auto
qed

lemma refresh_any:
  assumes wf: "wf_database db" and mem: "p \<in> set (store_getPodcasts db)"
  shows "podcasts (refreshPodcast c p db) = podcasts db
       \<and> wf_database (refreshPodcast c p db)
       \<and> nextKey (episodes db) \<le> nextKey (episodes (refreshPodcast c p db))
       \<and> (\<forall>k v. e_podcastId v \<noteq> fst p \<longrightarrow>
             (rows (episodes (refreshPodcast c p db)) k = Some v \<longleftrightarrow> rows (episodes db) k = Some v))
       \<and> (\<forall>q. q \<noteq> fst p \<longrightarrow> storedEpisodesOf q (refreshPodcast c p db) = storedEpisodesOf q db)
       \<and> (directoryIds_distinct db \<longrightarrow> directoryIds_distinct (refreshPodcast c p db))
       \<and> (directoryIds_distinct db \<longrightarrow> settled c p (refreshPodcast c p db))"
proof -
  obtain pid P where p: "p = (pid, P)" by (cases p)
  show ?thesis
  proof (cases "getEpisodes c (p_feedUrl P)")
    case (Inl err)
    then have id: "refreshPodcast c p db = db" by (simp add: p refreshPodcast_failed)
    show ?thesis unfolding id using wf Inl by (simp add: settled_def p)
  next
    case (Inr R)
    note rf = refresh_fetched[OF wf mem[unfolded p] Inr, folded p]
    note rs = refresh_settles[OF wf mem[unfolded p] Inr, folded p]
    have 4: "\<forall>k v. e_podcastId v \<noteq> fst p \<longrightarrow>
             (rows (episodes (refreshPodcast c p db)) k = Some v \<longleftrightarrow> rows (episodes db) k = Some v)"
      using rf(4) by (simp add: p)
    have 5: "\<forall>q. q \<noteq> fst p \<longrightarrow> storedEpisodesOf q (refreshPodcast c p db) = storedEpisodesOf q db"
      using rf(5) by (simp add: p)
    have 7: "directoryIds_distinct db \<longrightarrow> settled c p (refreshPodcast c p db)"
      using rs(2) Inr by (simp add: settled_def p)
    from rf(1,2,3) 4 5 rs(1) 7 show ?thesis by blast
  qed
qed

lemma settled_refresh_id:
  assumes wf: "wf_database db" and mem: "p \<in> set (store_getPodcasts db)" and s: "settled c p db"
  shows "refreshPodcast c p db = db"
proof -
  obtain pid P where p: "p = (pid, P)" by (cases p)
  show ?thesis
  proof (cases "getEpisodes c (p_feedUrl P)")
    case (Inl err) then show ?thesis by (simp add: p refreshPodcast_failed)
  next
    case (Inr R)
    with s have fp: "reconcile pid R (storedEpisodesOf pid db) = storedEpisodesOf pid db"
      by (simp add: settled_def p)
    have "bulkPut (storedEpisodesOf pid db) (episodes db) = episodes db"
    proof (rule bulkPut_stored, rule ballI)
      fix r assume "r \<in> set (storedEpisodesOf pid db)"
      then have "(fst r, snd r) \<in> set (storedEpisodesOf pid db)" by simp
      then show "\<exists>k. fst r = Some k \<and> k < nextKey (episodes db) \<and> rows (episodes db) k = Some (snd r)"
        unfolding storedEpisodesOf_iff by blast
    qed
    then show ?thesis
      unfolding p refreshPodcast_fetched[OF wf mem[unfolded p] Inr] fp by simp
  qed
qed

lemma loop_resolves: "fst (updatePodcasts_loop c Ps db) = Inr ()"
  by (induction Ps arbitrary: db) simp_all

lemma loop_skips_failed:
  "updatePodcasts_loop c Ps db = updatePodcasts_loop c (filter (fetched c) Ps) db"
proof (induction Ps arbitrary: db)
  case Nil show ?case by simp
next
  case (Cons p Ps)
  show ?case
  proof (cases "fetched c p")
    case True with Cons show ?thesis by simp
  next
    case False
    then have "refreshPodcast c p db = db"
      by (auto simp: fetched_def refreshPodcast_def split: sum.splits)
    with False Cons show ?thesis by simp
  qed
qed

lemma loop_invariants:
  assumes "wf_database db" and "set Ps \<subseteq> set (store_getPodcasts db)"
  shows "podcasts (snd (updatePodcasts_loop c Ps db)) = podcasts db
       \<and> wf_database (snd (updatePodcasts_loop c Ps db))
       \<and> nextKey (episodes db) \<le> nextKey (episodes (snd (updatePodcasts_loop c Ps db)))
       \<and> (directoryIds_distinct db \<longrightarrow> directoryIds_distinct (snd (updatePodcasts_loop c Ps db)))"
  using assms
proof (induction Ps arbitrary: db)
  case Nil then show ?case by simp
next
  case (Cons p Ps)
  let ?db1 = "refreshPodcast c p db"
  from Cons.prems have mem: "p \<in> set (store_getPodcasts db)" by simp
  note ra = refresh_any[OF Cons.prems(1) mem, where c=c]
  have "store_getPodcasts ?db1 = store_getPodcasts db" using ra by (simp add: store_getPodcasts_def)
  with Cons.prems have sub: "set Ps \<subseteq> set (store_getPodcasts ?db1)" by simp
  from ra have wf1: "wf_database ?db1" by blast
  from Cons.IH[OF wf1 sub] ra show ?case by auto
qed

lemma loop_frame:
  assumes "wf_database db" and "set Ps \<subseteq> set (store_getPodcasts db)"
    and "\<forall>p\<in>set Ps. fst p \<noteq> pid \<or> \<not> fetched c p"
  shows "storedEpisodesOf pid (snd (updatePodcasts_loop c Ps db)) = storedEpisodesOf pid db
       \<and> (\<forall>k v. e_podcastId v = pid \<longrightarrow>
             (rows (episodes (snd (updatePodcasts_loop c Ps db))) k = Some v \<longleftrightarrow> rows (episodes db) k = Some v))"
  using assms
proof (induction Ps arbitrary: db)
  case Nil then show ?case by simp
next
  case (Cons p Ps)
  let ?db1 = "refreshPodcast c p db"
  from Cons.prems have mem: "p \<in> set (store_getPodcasts db)" by simp
  note ra = refresh_any[OF Cons.prems(1) mem, where c=c]
  have "store_getPodcasts ?db1 = store_getPodcasts db" using ra by (simp add: store_getPodcasts_def)
  with Cons.prems have sub: "set Ps \<subseteq> set (store_getPodcasts ?db1)" by simp
  from Cons.prems(3) have rest: "\<forall>p\<in>set Ps. fst p \<noteq> pid \<or> \<not> fetched c p" by simp
  from ra have wf1: "wf_database ?db1" by blast
  note IH = Cons.IH[OF wf1 sub rest]
  have step: "storedEpisodesOf pid ?db1 = storedEpisodesOf pid db
       \<and> (\<forall>k v. e_podcastId v = pid \<longrightarrow> (rows (episodes ?db1) k = Some v \<longleftrightarrow> rows (episodes db) k = Some v))"
  proof (cases "fetched c p")
    case False
    then have "?db1 = db" by (auto simp: fetched_def refreshPodcast_def split: sum.splits)
    then show ?thesis by simp
  next
    case True
    with Cons.prems(3) have "fst p \<noteq> pid" by auto
    with ra show ?thesis by auto
  qed
  with IH show ?case by simp
qed

lemma loop_Cons_snd:
  "snd (updatePodcasts_loop c (p # Ps) db) = snd (updatePodcasts_loop c Ps (refreshPodcast c p db))"
  by simp

lemma not_fetched_id: "\<not> fetched c p \<Longrightarrow> refreshPodcast c p db = db"
  by (auto simp: fetched_def refreshPodcast_def split: sum.splits)

lemma fetched_iff: "fetched c p \<longleftrightarrow> (\<exists>R. getEpisodes c (p_feedUrl (snd p)) = Inr R)"
  by (auto simp: fetched_def split: sum.splits)

lemma spread_spread_snd:
  "snd (spreadOver (k, snd (spreadOver (k', v) m1)) m2) = snd (spreadOver (k'', v) m2)"
  by (simp add: spreadOver_def)

lemma loop_rows_derived:
  assumes "wf_database db" and "set Ps \<subseteq> set (store_getPodcasts db)"
    and "rows (episodes db) k = Some v"
  shows "\<exists>v'. rows (episodes (snd (updatePodcasts_loop c Ps db))) k = Some v'
           \<and> (v' = v \<or> (\<exists>P R x. (e_podcastId v, P) \<in> set Ps \<and> getEpisodes c (p_feedUrl P) = Inr R
                   \<and> x \<in> set R \<and> pie_id x = e_podcastIndexOrgId v
                   \<and> v' = snd (spreadOver (Some k, v) (mapped x))))"
  using assms
proof (induction Ps arbitrary: db v)
  case Nil then show ?case by simp
next
  case (Cons p Ps)
  obtain pid P where p: "p = (pid, P)" by (cases p)
  let ?db1 = "refreshPodcast c p db"
  from Cons.prems have mem: "p \<in> set (store_getPodcasts db)" by simp
  note ra = refresh_any[OF Cons.prems(1) mem, where c=c]
  have "store_getPodcasts ?db1 = store_getPodcasts db" using ra by (simp add: store_getPodcasts_def)
  with Cons.prems have sub: "set Ps \<subseteq> set (store_getPodcasts ?db1)" by simp
  from ra have wf1: "wf_database ?db1" by blast
  have step: "\<exists>v1. rows (episodes ?db1) k = Some v1
           \<and> (v1 = v \<or> (\<exists>R x. e_podcastId v = pid \<and> getEpisodes c (p_feedUrl P) = Inr R
                   \<and> x \<in> set R \<and> pie_id x = e_podcastIndexOrgId v
                   \<and> v1 = snd (spreadOver (Some k, v) (mapped x))))"
  proof (cases "fetched c p \<and> e_podcastId v = pid")
    case True
    then obtain R where R: "getEpisodes c (p_feedUrl P) = Inr R" by (auto simp: fetched_iff p)
    from refresh_own[OF Cons.prems(1) mem[unfolded p] R Cons.prems(3)] True R show ?thesis
      unfolding p by blast
  next
    case False
    then consider "\<not> fetched c p" | "e_podcastId v \<noteq> fst p" by (auto simp: p)
    then have "rows (episodes ?db1) k = Some v"
    proof cases
      case 1 then show ?thesis using Cons.prems(3) by (simp add: not_fetched_id)
    next
      case 2 with ra Cons.prems(3) show ?thesis by blast
    qed
    then show ?thesis by blast
  qed
  then obtain v1 where v1: "rows (episodes ?db1) k = Some v1"
    and d1: "v1 = v \<or> (\<exists>R x. e_podcastId v = pid \<and> getEpisodes c (p_feedUrl P) = Inr R
                   \<and> x \<in> set R \<and> pie_id x = e_podcastIndexOrgId v
                   \<and> v1 = snd (spreadOver (Some k, v) (mapped x)))"
    by blast
  from d1 have same: "e_podcastId v1 = e_podcastId v" "e_podcastIndexOrgId v1 = e_podcastIndexOrgId v"
    by (auto simp: spreadOver_def mapPodcastIndexOrgEpisodeToStorage_def)
  from Cons.IH[OF wf1 sub v1] obtain v' where
    v': "rows (episodes (snd (updatePodcasts_loop c Ps ?db1))) k = Some v'"
    and d2: "v' = v1 \<or> (\<exists>P R x. (e_podcastId v1, P) \<in> set Ps \<and> getEpisodes c (p_feedUrl P) = Inr R
                   \<and> x \<in> set R \<and> pie_id x = e_podcastIndexOrgId v1
                   \<and> v' = snd (spreadOver (Some k, v1) (mapped x)))"
    by blast
  have "v' = v \<or> (\<exists>P R x. (e_podcastId v, P) \<in> set (p # Ps) \<and> getEpisodes c (p_feedUrl P) = Inr R
                   \<and> x \<in> set R \<and> pie_id x = e_podcastIndexOrgId v
                   \<and> v' = snd (spreadOver (Some k, v) (mapped x)))"
  proof (cases "v' = v1")
    case True
    with d1 show ?thesis unfolding p by auto
  next
    case False
    with d2 obtain P' R' x' where 2: "(e_podcastId v1, P') \<in> set Ps" "getEpisodes c (p_feedUrl P') = Inr R'"
      "x' \<in> set R'" "pie_id x' = e_podcastIndexOrgId v1" "v' = snd (spreadOver (Some k, v1) (mapped x'))"
      by blast
    have "v' = snd (spreadOver (Some k, v) (mapped x'))"
      using d1 2(5) by (auto simp: spread_spread_snd)
    moreover have "(e_podcastId v, P') \<in> set (p # Ps)" using 2(1) same(1) by simp
    moreover have "pie_id x' = e_podcastIndexOrgId v" using 2(4) same(2) by simp
    ultimately show ?thesis using 2(2,3) by blast
  qed
  with v' show ?case by (simp only: loop_Cons_snd) blast
qed

lemma loop_matched:
  assumes "wf_database db" and "set Ps \<subseteq> set (store_getPodcasts db)" and "distinct (map fst Ps)"
    and "(pid, P) \<in> set Ps" and "getEpisodes c (p_feedUrl P) = Inr R" and "x \<in> set R"
    and "find (\<lambda>r. e_podcastIndexOrgId (snd r) = pie_id x) (storedEpisodesOf pid db) = Some (Some k, v)"
  shows "\<exists>x'. lastWith R (pie_id x) = Some x'
           \<and> rows (episodes (snd (updatePodcasts_loop c Ps db))) k = Some (snd (spreadOver (Some k, v) (mapped x')))"
  using assms
proof (induction Ps arbitrary: db)
  case Nil then show ?case by simp
next
  case (Cons p Ps)
  let ?db1 = "refreshPodcast c p db"
  from Cons.prems have mem: "p \<in> set (store_getPodcasts db)" by simp
  note ra = refresh_any[OF Cons.prems(1) mem, where c=c]
  have "store_getPodcasts ?db1 = store_getPodcasts db" using ra by (simp add: store_getPodcasts_def)
  with Cons.prems have sub: "set Ps \<subseteq> set (store_getPodcasts ?db1)" by simp
  from ra have wf1: "wf_database ?db1" by blast
  from Cons.prems(3) have dPs: "distinct (map fst Ps)" and nin: "fst p \<notin> fst ` set Ps" by simp_all
  show ?case
  proof (cases "p = (pid, P)")
    case True
    from refresh_matched[OF Cons.prems(1) mem[unfolded True] Cons.prems(5,6,7)]
    obtain x' where x': "lastWith R (pie_id x) = Some x'"
      and r1: "rows (episodes ?db1) k = Some (snd (spreadOver (Some k, v) (mapped x')))"
      unfolding True by blast
    from find_SomeD[OF Cons.prems(7)] have "e_podcastId v = pid"
      using storedEpisodesOf_podcastId[of pid db] by force
    then have own: "e_podcastId (snd (spreadOver (Some k, v) (mapped x'))) = pid" by simp
    have "\<forall>q\<in>set Ps. fst q \<noteq> pid \<or> \<not> fetched c q"
    proof (intro ballI disjI1)
      fix q assume "q \<in> set Ps"
      then have "fst q \<in> fst ` set Ps" by (rule imageI)
      with nin True show "fst q \<noteq> pid" by (metis fst_conv)
    qed
    from loop_frame[OF wf1 sub this] own r1
    have "rows (episodes (snd (updatePodcasts_loop c Ps ?db1))) k = Some (snd (spreadOver (Some k, v) (mapped x')))"
      by blast
    with x' show ?thesis by (simp only: loop_Cons_snd) blast
  next
    case False
    with Cons.prems(4) have inPs: "(pid, P) \<in> set Ps" by simp
    then have "fst (pid, P) \<in> fst ` set Ps" by (rule imageI)
    with nin have "pid \<noteq> fst p" by (metis fst_conv)
    with ra have "storedEpisodesOf pid ?db1 = storedEpisodesOf pid db" by blast
    with Cons.prems(7) have f1: "find (\<lambda>r. e_podcastIndexOrgId (snd r) = pie_id x) (storedEpisodesOf pid ?db1) = Some (Some k, v)"
      by simp
    from Cons.IH[OF wf1 sub dPs inPs Cons.prems(5,6) f1] show ?thesis by (simp only: loop_Cons_snd)
  qed
qed

lemma loop_appended:
  assumes "wf_database db" and "set Ps \<subseteq> set (store_getPodcasts db)" and "distinct (map fst Ps)"
    and "(pid, P) \<in> set Ps" and "getEpisodes c (p_feedUrl P) = Inr R" and "x \<in> set R"
    and "find (\<lambda>r. e_podcastIndexOrgId (snd r) = pie_id x) (storedEpisodesOf pid db) = None"
  shows "\<exists>k x'. nextKey (episodes db) \<le> k \<and> lastWith R (pie_id x) = Some x'
           \<and> rows (episodes (snd (updatePodcasts_loop c Ps db))) k = Some (snd (withPodcastId (mapped x') pid))"
  using assms
proof (induction Ps arbitrary: db)
  case Nil then show ?case by simp
next
  case (Cons p Ps)
  let ?db1 = "refreshPodcast c p db"
  from Cons.prems have mem: "p \<in> set (store_getPodcasts db)" by simp
  note ra = refresh_any[OF Cons.prems(1) mem, where c=c]
  have "store_getPodcasts ?db1 = store_getPodcasts db" using ra by (simp add: store_getPodcasts_def)
  with Cons.prems have sub: "set Ps \<subseteq> set (store_getPodcasts ?db1)" by simp
  from ra have wf1: "wf_database ?db1" and mono: "nextKey (episodes db) \<le> nextKey (episodes ?db1)" by blast+
  from Cons.prems(3) have dPs: "distinct (map fst Ps)" and nin: "fst p \<notin> fst ` set Ps" by simp_all
  show ?case
  proof (cases "p = (pid, P)")
    case True
    from refresh_appended[OF Cons.prems(1) mem[unfolded True] Cons.prems(5,6,7)]
    obtain k x' where k: "nextKey (episodes db) \<le> k" and x': "lastWith R (pie_id x) = Some x'"
      and r1: "rows (episodes ?db1) k = Some (snd (withPodcastId (mapped x') pid))"
      unfolding True by blast
    have own: "e_podcastId (snd (withPodcastId (mapped x') pid)) = pid" by simp
    have "\<forall>q\<in>set Ps. fst q \<noteq> pid \<or> \<not> fetched c q"
    proof (intro ballI disjI1)
      fix q assume "q \<in> set Ps"
      then have "fst q \<in> fst ` set Ps" by (rule imageI)
      with nin True show "fst q \<noteq> pid" by (metis fst_conv)
    qed
    from loop_frame[OF wf1 sub this] own r1
    have "rows (episodes (snd (updatePodcasts_loop c Ps ?db1))) k = Some (snd (withPodcastId (mapped x') pid))"
      by blast
    with k x' show ?thesis by (simp only: loop_Cons_snd) blast
  next
    case False
    with Cons.prems(4) have inPs: "(pid, P) \<in> set Ps" by simp
    then have "fst (pid, P) \<in> fst ` set Ps" by (rule imageI)
    with nin have "pid \<noteq> fst p" by (metis fst_conv)
    with ra have "storedEpisodesOf pid ?db1 = storedEpisodesOf pid db" by blast
    with Cons.prems(7) have f1: "find (\<lambda>r. e_podcastIndexOrgId (snd r) = pie_id x) (storedEpisodesOf pid ?db1) = None"
      by simp
    from Cons.IH[OF wf1 sub dPs inPs Cons.prems(5,6) f1] mono show ?thesis
      by (simp only: loop_Cons_snd) (meson le_trans)
  qed
qed

lemma loop_settles:
  assumes "wf_database db" and "set Ps \<subseteq> set (store_getPodcasts db)" and "distinct (map fst Ps)"
    and "directoryIds_distinct db"
  shows "\<forall>p\<in>set Ps. settled c p (snd (updatePodcasts_loop c Ps db))"
  using assms
proof (induction Ps arbitrary: db)
  case Nil then show ?case by simp
next
  case (Cons p Ps)
  let ?db1 = "refreshPodcast c p db"
  from Cons.prems have mem: "p \<in> set (store_getPodcasts db)" by simp
  note ra = refresh_any[OF Cons.prems(1) mem, where c=c]
  have "store_getPodcasts ?db1 = store_getPodcasts db" using ra by (simp add: store_getPodcasts_def)
  with Cons.prems have sub: "set Ps \<subseteq> set (store_getPodcasts ?db1)" by simp
  from ra Cons.prems(4) have wf1: "wf_database ?db1" and dd1: "directoryIds_distinct ?db1"
    and s1: "settled c p ?db1" by blast+
  from Cons.prems(3) have dPs: "distinct (map fst Ps)" and nin: "fst p \<notin> fst ` set Ps" by simp_all
  have "\<forall>q\<in>set Ps. fst q \<noteq> fst p \<or> \<not> fetched c q"
  proof (intro ballI disjI1)
    fix q assume "q \<in> set Ps"
    then have "fst q \<in> fst ` set Ps" by (rule imageI)
    with nin show "fst q \<noteq> fst p" by metis
  qed
  from loop_frame[OF wf1 sub this]
  have "storedEpisodesOf (fst p) (snd (updatePodcasts_loop c Ps ?db1)) = storedEpisodesOf (fst p) ?db1"
    by blast
  with s1 have "settled c p (snd (updatePodcasts_loop c Ps ?db1))"
    by (simp add: settled_def split: sum.splits)
  with Cons.IH[OF wf1 sub dPs dd1] show ?case by (simp only: loop_Cons_snd) simp
qed

lemma loop_settled_id:
  assumes "wf_database db" and "set Ps \<subseteq> set (store_getPodcasts db)"
    and "\<forall>p\<in>set Ps. settled c p db"
  shows "updatePodcasts_loop c Ps db = (Inr (), db)"
  using assms
proof (induction Ps)
  case Nil then show ?case by simp
next
  case (Cons p Ps)
  then have "refreshPodcast c p db = db" by (intro settled_refresh_id) simp_all
  with Cons show ?case by simp
qed

lemma ctrl_getEpisodes_resolved:
  assumes "wf_database db" and "(pid, P) \<in> set (store_getPodcasts db)"
  shows "ctrl_getEpisodes (p_feedUrl P) db = storedEpisodesOf pid db"
  using store_getPodcast_resolves[OF assms] by (simp add: ctrl_getEpisodes_def storedEpisodesOf_def)

lemma store_getEpisodes_of_stored:
  "storedEpisodesOf pid db' = storedEpisodesOf pid db \<Longrightarrow> store_getEpisodes pid db' = store_getEpisodes pid db"
proof -
  assume "storedEpisodesOf pid db' = storedEpisodesOf pid db"
  moreover have "inj (\<lambda>r :: Episode RequireId. (Some (fst r), snd r))"
    by (rule injI) (auto simp: prod_eq_iff)
  ultimately show ?thesis unfolding storedEpisodesOf_def by (simp add: inj_map_eq_map)
qed

lemma distinct_store_getPodcasts: "distinct (map fst (store_getPodcasts db))"
  by (simp add: store_getPodcasts_def distinct_toArray_keys)

lemma same_key_same_podcast:
  "(k, P) \<in> set (store_getPodcasts db) \<Longrightarrow> (k, P') \<in> set (store_getPodcasts db) \<Longrightarrow> P' = P"
  by (simp add: store_getPodcasts_def toArray_iff)

lemma wf_emptyTable: "wf_table emptyTable"
  by (simp add: wf_table_def emptyTable_def)

lemma wf_newDatabase: "wf_database newDatabase"
proof -
  have "feedUrl_unique (emptyTable :: Podcast table)" by (simp add: feedUrl_unique_def emptyTable_def)
  then show ?thesis by (simp add: wf_database_def newDatabase_def wf_emptyTable)
qed

lemma wf_store_addPodcast:
  assumes "wf_database db"
  shows "wf_database (snd (store_addPodcast podcast db))"
proof -
  let ?t = "podcasts db"
  let ?k = "case fst podcast of Some k \<Rightarrow> k | None \<Rightarrow> nextKey ?t"
  show ?thesis
  proof (cases "(fst podcast \<noteq> None \<and> rows ?t ?k \<noteq> None)
            \<or> list_ex (\<lambda>r. p_feedUrl (snd r) = p_feedUrl (snd podcast)) (toArray ?t)")
    case True
    then have "store_addPodcast podcast db = (Inl ConstraintError, db)"
      by (simp add: store_addPodcast_def Let_def)
    with assms show ?thesis by simp
  next
    case False
    then have eq: "snd (store_addPodcast podcast db) = db\<lparr>podcasts := table_store ?k (snd podcast) ?t\<rparr>"
      by (auto simp: store_addPodcast_def Let_def)
    from assms have wft: "wf_table ?t" and u: "feedUrl_unique ?t" and wfe: "wf_table (episodes db)"
      by (simp_all add: wf_database_def)
    from False have fresh: "\<forall>k' r'. k' < nextKey ?t \<and> rows ?t k' = Some r' \<longrightarrow> p_feedUrl r' \<noteq> p_feedUrl (snd podcast)"
      unfolding list_ex_toArray by auto
    have "feedUrl_unique (table_store ?k (snd podcast) ?t)"
      unfolding feedUrl_unique_def
    proof (intro allI impI, elim conjE)
      fix k1 k2 p1 p2
      assume a: "rows (table_store ?k (snd podcast) ?t) k1 = Some p1"
        "rows (table_store ?k (snd podcast) ?t) k2 = Some p2" "p_feedUrl p1 = p_feedUrl p2"
      show "k1 = k2"
      proof (cases "k1 = ?k"; cases "k2 = ?k")
        assume "k1 = ?k" "k2 = ?k" then show ?thesis by simp
      next
        assume k: "k1 = ?k" "k2 \<noteq> ?k"
        with a have "rows ?t k2 = Some p2" "p_feedUrl p2 = p_feedUrl (snd podcast)"
          by (simp_all add: table_store_def)
        with fresh wf_table_visible[OF wft] show ?thesis by blast
      next
        assume k: "k1 \<noteq> ?k" "k2 = ?k"
        with a have "rows ?t k1 = Some p1" "p_feedUrl p1 = p_feedUrl (snd podcast)"
          by (simp_all add: table_store_def)
        with fresh wf_table_visible[OF wft] show ?thesis by blast
      next
        assume k: "k1 \<noteq> ?k" "k2 \<noteq> ?k"
        with a have "rows ?t k1 = Some p1" "rows ?t k2 = Some p2" by (simp_all add: table_store_def)
        with u a(3) show ?thesis unfolding feedUrl_unique_def by blast
      qed
    qed
    with wft wfe show ?thesis unfolding eq by (simp add: wf_database_def wf_table_store)
  qed
qed

lemma wf_store_updatePodcast:
  assumes "wf_database db"
  shows "wf_database (snd (store_updatePodcast changes db))"
proof (cases "rows (podcasts db) (pc_id changes)")
  case None
  with assms show ?thesis by (simp add: store_updatePodcast_def)
next
  case (Some p)
  let ?t = "podcasts db" and ?k = "pc_id changes"
  let ?p' = "applyPodcastChanges changes p"
  show ?thesis
  proof (cases "list_ex (\<lambda>r. fst r \<noteq> ?k \<and> p_feedUrl (snd r) = p_feedUrl ?p') (toArray ?t)")
    case True
    with Some assms show ?thesis by (simp add: store_updatePodcast_def Let_def)
  next
    case False
    with Some have eq: "snd (store_updatePodcast changes db) = db\<lparr>podcasts := ?t\<lparr>rows := (rows ?t)(?k \<mapsto> ?p')\<rparr>\<rparr>"
      by (simp add: store_updatePodcast_def Let_def)
    from assms have wft: "wf_table ?t" and u: "feedUrl_unique ?t" and wfe: "wf_table (episodes db)"
      by (simp_all add: wf_database_def)
    from False have fresh: "\<forall>k' r'. k' < nextKey ?t \<and> rows ?t k' = Some r' \<and> k' \<noteq> ?k \<longrightarrow> p_feedUrl r' \<noteq> p_feedUrl ?p'"
      unfolding list_ex_toArray by auto
    have wft': "wf_table (?t\<lparr>rows := (rows ?t)(?k \<mapsto> ?p')\<rparr>)"
      using wft wf_table_visible[OF wft Some] by (auto simp: wf_table_def)
    have "feedUrl_unique (?t\<lparr>rows := (rows ?t)(?k \<mapsto> ?p')\<rparr>)"
      unfolding feedUrl_unique_def
    proof (intro allI impI, elim conjE)
      fix k1 k2 p1 p2
      assume a: "rows (?t\<lparr>rows := (rows ?t)(?k \<mapsto> ?p')\<rparr>) k1 = Some p1"
        "rows (?t\<lparr>rows := (rows ?t)(?k \<mapsto> ?p')\<rparr>) k2 = Some p2" "p_feedUrl p1 = p_feedUrl p2"
      show "k1 = k2"
      proof (cases "k1 = ?k"; cases "k2 = ?k")
        assume "k1 = ?k" "k2 = ?k" then show ?thesis by simp
      next
        assume k: "k1 = ?k" "k2 \<noteq> ?k"
        with a have "rows ?t k2 = Some p2" "p_feedUrl p2 = p_feedUrl ?p'" by simp_all
        with fresh wf_table_visible[OF wft] k show ?thesis by blast
      next
        assume k: "k1 \<noteq> ?k" "k2 = ?k"
        with a have "rows ?t k1 = Some p1" "p_feedUrl p1 = p_feedUrl ?p'" by simp_all
        with fresh wf_table_visible[OF wft] k show ?thesis by blast
      next
        assume k: "k1 \<noteq> ?k" "k2 \<noteq> ?k"
        with a have "rows ?t k1 = Some p1" "rows ?t k2 = Some p2" by simp_all
        with u a(3) show ?thesis unfolding feedUrl_unique_def by blast
      qed
    qed
    with wft' wfe show ?thesis unfolding eq by (simp add: wf_database_def)
  qed
qed

lemma wf_store_putEpisodes: "wf_database db \<Longrightarrow> wf_database (store_putEpisodes eps db)"
  by (simp add: wf_database_def store_putEpisodes_def wf_bulkPut)

lemma wf_ctrl_addPodcast:
  assumes "wf_database db"
  shows "wf_database (snd (ctrl_addPodcast now client podcast db))"
proof -
  let ?p0 = "(None :: nat option,
              \<lparr>p_status = New, p_feedUrl = a_feedUrl podcast, p_alternateFeedUrls = None,
               p_lastBuildDate = None, p_lastItemPubDate = None, p_firstItemPubDate = None,
               p_title = a_title podcast, p_description = a_description podcast, p_link = None,
               p_imageUrl = a_imageUrl podcast, p_subscribed = a_subscribed podcast,
               p_podcastIndexOrgId = a_podcastIndexOrgId podcast,
               p_podcastIndexOrgLastEpisodeFetch = None, p_value = None\<rparr>)"
  obtain r1 db1 where s1: "store_addPodcast ?p0 db = (r1, db1)" by (cases "store_addPodcast ?p0 db")
  with wf_store_addPodcast[OF assms, of ?p0] have wf1: "wf_database db1" by simp
  show ?thesis
  proof (cases r1)
    case (Inl e)
    with s1 wf1 show ?thesis by (simp add: ctrl_addPodcast_def)
  next
    case (Inr k)
    note r1 = this
    show ?thesis
    proof (cases "getPodcastByFeedUrl client (a_feedUrl podcast)")
      case (Inl e)
      with s1 r1 wf1 show ?thesis by (simp add: ctrl_addPodcast_def)
    next
      case (Inr pm)
      note pm = this
      let ?c1 = "(noPodcastChanges k)
                \<lparr>pc_title := Some (pip_title pm),
                 pc_description := Some (pip_description pm),
                 pc_link := Some (pip_link pm),
                 pc_imageUrl := Some (pip_imageUrl pm),
                 pc_podcastIndexOrgId := Some (pip_id pm),
                 pc_value := (case pip_value pm of None \<Rightarrow> None | Some v \<Rightarrow> Some [v])\<rparr>"
      obtain r2 db2 where s2: "store_updatePodcast ?c1 db1 = (r2, db2)"
        by (cases "store_updatePodcast ?c1 db1")
      with wf_store_updatePodcast[OF wf1, of ?c1] have wf2: "wf_database db2" by simp
      show ?thesis
      proof (cases r2)
        case (Inl e)
        with s1 r1 pm s2 wf2 show ?thesis by (simp add: ctrl_addPodcast_def)
      next
        case (Inr u)
        note r2 = this
        show ?thesis
        proof (cases "getEpisodes client (a_feedUrl podcast)")
          case (Inl e)
          with s1 r1 pm s2 r2 wf2 show ?thesis by (simp add: ctrl_addPodcast_def)
        next
          case (Inr eps)
          let ?db3 = "store_putEpisodes
                       (map (\<lambda>episode. withPodcastId (mapPodcastIndexOrgEpisodeToStorage episode) k) eps) db2"
          have "wf_database ?db3" by (rule wf_store_putEpisodes[OF wf2])
          from wf_store_updatePodcast[OF this] s1 r1 pm s2 r2 Inr show ?thesis
            by (simp add: ctrl_addPodcast_def Let_def)
        qed
      qed
    qed
  qed
qed

lemma wf_ctrl_updatePodcasts: "wf_database db \<Longrightarrow> wf_database (snd (ctrl_updatePodcasts c db))"
  using loop_invariants[of db "store_getPodcasts db" c] by (simp add: ctrl_updatePodcasts_def)

lemma directoryIds_distinct_iff:
  assumes "wf_table (episodes db)"
  shows "directoryIds_distinct db \<longleftrightarrow>
           distinct (map (\<lambda>r. (e_podcastId (snd r), e_podcastIndexOrgId (snd r))) (toArray (episodes db)))"
proof -
  let ?f = "\<lambda>r :: Episode RequireId. (e_podcastId (snd r), e_podcastIndexOrgId (snd r))"
  have "distinct (map ?f (toArray (episodes db))) \<longleftrightarrow> inj_on ?f (set (toArray (episodes db)))"
    by (simp add: distinct_map distinct_toArray)
  also have "\<dots> \<longleftrightarrow> directoryIds_distinct db"
  proof
    assume inj: "inj_on ?f (set (toArray (episodes db)))"
    show "directoryIds_distinct db"
      unfolding directoryIds_distinct_def
    proof (intro allI impI, elim conjE)
      fix k1 k2 e1 e2
      assume a: "rows (episodes db) k1 = Some e1" "rows (episodes db) k2 = Some e2"
        "e_podcastId e1 = e_podcastId e2" "e_podcastIndexOrgId e1 = e_podcastIndexOrgId e2"
      then have m: "(k1, e1) \<in> set (toArray (episodes db))" "(k2, e2) \<in> set (toArray (episodes db))"
        using wf_table_visible[OF assms] by (simp_all add: toArray_iff)
      have "?f (k1, e1) = ?f (k2, e2)" using a(3,4) by simp
      from inj_onD[OF inj this m] show "k1 = k2" by simp
    qed
  next
    assume dd: "directoryIds_distinct db"
    show "inj_on ?f (set (toArray (episodes db)))"
    proof (rule inj_onI)
      fix r1 r2 assume r: "r1 \<in> set (toArray (episodes db))" "r2 \<in> set (toArray (episodes db))" "?f r1 = ?f r2"
      obtain k1 e1 k2 e2 where e: "r1 = (k1, e1)" "r2 = (k2, e2)" by (cases r1, cases r2) auto
      with r have rows: "rows (episodes db) k1 = Some e1" "rows (episodes db) k2 = Some e2"
        and same: "e_podcastId e1 = e_podcastId e2" "e_podcastIndexOrgId e1 = e_podcastIndexOrgId e2"
        by (simp_all add: toArray_iff)
      with dd have "k1 = k2" unfolding directoryIds_distinct_def by blast
      with rows e show "r1 = r2" by simp
    qed
  qed
  finally show ?thesis by simp
qed

lemma wf_exampleDatabase: "wf_database exampleDatabase"
  unfolding exampleDatabase_def by (rule wf_ctrl_addPodcast[OF wf_newDatabase])

lemma wf_exampleDatabase2: "wf_database exampleDatabase2"
  unfolding exampleDatabase2_def by (rule wf_ctrl_addPodcast[OF wf_exampleDatabase])

lemma spreadOver_mapped:
  "snd (spreadOver r (mapPodcastIndexOrgEpisodeToStorage x))
     = (snd r)\<lparr>e_title := Some (pie_title x), e_link := Some (pie_link x),
             e_description := Some (pie_description x), e_pubDate := Some (pie_pubDate x),
             e_imageUrl := Some (pie_imageUrl x), e_enclosure := pie_enclosure x,
             e_guid := Some (pie_guid x), e_podcastIndexOrgId := pie_id x\<rparr>"
  by (cases "pie_enclosure x") (simp_all add: spreadOver_def mapPodcastIndexOrgEpisodeToStorage_def)

lemma withPodcastId_mapped:
  "snd (withPodcastId (mapPodcastIndexOrgEpisodeToStorage x) pid)
     = \<lparr>e_podcastId = pid, e_title = Some (pie_title x), e_link = Some (pie_link x),
        e_description = Some (pie_description x), e_imageUrl = Some (pie_imageUrl x),
        e_categories = None, e_pubDate = Some (pie_pubDate x), e_enclosure = pie_enclosure x,
        e_duration = None, e_guid = Some (pie_guid x), e_podcastIndexOrgId = pie_id x,
        e_position = None, e_lastTimeListened = None, e_finished = None\<rparr>"
  by (cases "pie_enclosure x") (simp_all add: withPodcastId_def mapPodcastIndexOrgEpisodeToStorage_def)

lemma array_sort_three:
  "array_sort comparefn [a, b, c] \<in> {[a, b, c], [a, c, b], [b, a, c], [b, c, a], [c, a, b], [c, b, a]}"
  by (simp add: array_sort_def)

lemmas table_eval =
  toArray_def List.map_filter_def bulkPut_def table_put_def table_store_def emptyTable_def

lemma reconcile_three:
  assumes ids: "e_podcastIndexOrgId a = 1" "e_podcastIndexOrgId b = 2" "e_podcastIndexOrgId c = 3"
    and xs: "pie_id x2 = 2" "pie_id x3 = 3" "pie_id x4 = 4"
    and L: "L \<in> {[(3, c), (2, b), (1, a)], [(3, c), (1, a), (2, b)], [(2, b), (3, c), (1, a)],
                  [(2, b), (1, a), (3, c)], [(1, a), (3, c), (2, b)], [(1, a), (2, b), (3, c)]}"
  shows "toArray (bulkPut (reconcile pid [x2, x3, x4] (map (\<lambda>r. (Some (fst r), snd r)) L))
            (bulkPut [(None, a), (None, b), (None, c)] emptyTable))
         = [(1, a),
            (2, snd (spreadOver (Some 2, b) (mapPodcastIndexOrgEpisodeToStorage x2))),
            (3, snd (spreadOver (Some 3, c) (mapPodcastIndexOrgEpisodeToStorage x3))),
            (4, snd (withPodcastId (mapPodcastIndexOrgEpisodeToStorage x4) pid))]"
proof -
  note ev = table_eval reconcile_def reconcileEpisode_def
  from L consider "L = [(3, c), (2, b), (1, a)]" | "L = [(3, c), (1, a), (2, b)]"
    | "L = [(2, b), (3, c), (1, a)]" | "L = [(2, b), (1, a), (3, c)]"
    | "L = [(1, a), (3, c), (2, b)]" | "L = [(1, a), (2, b), (3, c)]" by auto
  then show ?thesis
  proof cases
    case 1 then show ?thesis using ids xs by (simp add: ev)
  next
    case 2 then show ?thesis using ids xs by (simp add: ev)
  next
    case 3 then show ?thesis using ids xs by (simp add: ev)
  next
    case 4 then show ?thesis using ids xs by (simp add: ev)
  next
    case 5 then show ?thesis using ids xs by (simp add: ev)
  next
    case 6 then show ?thesis using ids xs by (simp add: ev)
  qed
qed

lemmas scenario_eval =
  ctrl_addPodcast_def store_addPodcast_def newDatabase_def emptyTable_def toArray_def
  scenarioClient_def Let_def table_store_def store_updatePodcast_def List.map_filter_def
  noPodcastChanges_def applyPodcastChanges_def store_putEpisodes_def bulkPut_def table_put_def
  store_getPodcasts_def

lemma scenarioAdded_podcasts: "map fst (store_getPodcasts (scenarioAdded now pm toAdd ep1 ep2 ep3)) = [1]"
  unfolding scenarioAdded_def by (simp add: scenario_eval)

lemma scenarioAdded_episodes:
  "episodes (scenarioAdded now pm toAdd ep1 ep2 ep3)
     = bulkPut [(None, snd (withPodcastId (mapPodcastIndexOrgEpisodeToStorage (ep1\<lparr>pie_id := 1\<rparr>)) 1)),
                (None, snd (withPodcastId (mapPodcastIndexOrgEpisodeToStorage (ep2\<lparr>pie_id := 2\<rparr>)) 1)),
                (None, snd (withPodcastId (mapPodcastIndexOrgEpisodeToStorage (ep3\<lparr>pie_id := 3\<rparr>)) 1))] emptyTable"
  unfolding scenarioAdded_def by (simp add: scenario_eval)

lemma scenarioAdded_toArray:
  "toArray (episodes (scenarioAdded now pm toAdd ep1 ep2 ep3))
     = [(1, snd (withPodcastId (mapPodcastIndexOrgEpisodeToStorage (ep1\<lparr>pie_id := 1\<rparr>)) 1)),
        (2, snd (withPodcastId (mapPodcastIndexOrgEpisodeToStorage (ep2\<lparr>pie_id := 2\<rparr>)) 1)),
        (3, snd (withPodcastId (mapPodcastIndexOrgEpisodeToStorage (ep3\<lparr>pie_id := 3\<rparr>)) 1))]"
  unfolding scenarioAdded_episodes by (simp add: table_eval)

lemma wf_scenarioAdded: "wf_database (scenarioAdded now pm toAdd ep1 ep2 ep3)"
  unfolding scenarioAdded_def by (rule wf_ctrl_addPodcast[OF wf_newDatabase])

lemma scenarioRefreshed_episodes:
  "episodes (scenarioRefreshed pm' ep2' ep3' ep4 (scenarioAdded now pm toAdd ep1 ep2 ep3))
     = bulkPut (reconcile 1 [ep2'\<lparr>pie_id := 2\<rparr>, ep3'\<lparr>pie_id := 3\<rparr>, ep4\<lparr>pie_id := 4\<rparr>]
                  (storedEpisodesOf 1 (scenarioAdded now pm toAdd ep1 ep2 ep3)))
         (episodes (scenarioAdded now pm toAdd ep1 ep2 ep3))"
proof -
  let ?A = "scenarioAdded now pm toAdd ep1 ep2 ep3"
  let ?R = "[ep2'\<lparr>pie_id := 2\<rparr>, ep3'\<lparr>pie_id := 3\<rparr>, ep4\<lparr>pie_id := 4\<rparr>]"
  obtain P where P: "store_getPodcasts ?A = [(1, P)]"
    using scenarioAdded_podcasts[of now pm toAdd ep1 ep2 ep3]
    by (cases "store_getPodcasts ?A") auto
  then have mem: "(1, P) \<in> set (store_getPodcasts ?A)" by simp
  have fetch: "getEpisodes (scenarioClient pm' ?R) (p_feedUrl P) = Inr ?R"
    by (simp add: scenarioClient_def)
  show ?thesis
    unfolding scenarioRefreshed_def ctrl_updatePodcasts_def P updatePodcasts_loop.simps
      refreshPodcast_fetched[OF wf_scenarioAdded mem fetch]
    by simp
qed

lemma scenarioRefreshed_toArray:
  "toArray (episodes (scenarioRefreshed pm' ep2' ep3' ep4 (scenarioAdded now pm toAdd ep1 ep2 ep3)))
     = [(1, snd (withPodcastId (mapPodcastIndexOrgEpisodeToStorage (ep1\<lparr>pie_id := 1\<rparr>)) 1)),
        (2, snd (spreadOver (Some 2, snd (withPodcastId (mapPodcastIndexOrgEpisodeToStorage (ep2\<lparr>pie_id := 2\<rparr>)) 1))
                   (mapPodcastIndexOrgEpisodeToStorage (ep2'\<lparr>pie_id := 2\<rparr>)))),
        (3, snd (spreadOver (Some 3, snd (withPodcastId (mapPodcastIndexOrgEpisodeToStorage (ep3\<lparr>pie_id := 3\<rparr>)) 1))
                   (mapPodcastIndexOrgEpisodeToStorage (ep3'\<lparr>pie_id := 3\<rparr>)))),
        (4, snd (withPodcastId (mapPodcastIndexOrgEpisodeToStorage (ep4\<lparr>pie_id := 4\<rparr>)) 1))]"
proof -
  let ?A = "scenarioAdded now pm toAdd ep1 ep2 ep3"
  let ?a = "snd (withPodcastId (mapPodcastIndexOrgEpisodeToStorage (ep1\<lparr>pie_id := 1\<rparr>)) 1)"
  let ?b = "snd (withPodcastId (mapPodcastIndexOrgEpisodeToStorage (ep2\<lparr>pie_id := 2\<rparr>)) 1)"
  let ?c = "snd (withPodcastId (mapPodcastIndexOrgEpisodeToStorage (ep3\<lparr>pie_id := 3\<rparr>)) 1)"
  let ?cmp = "sorter Backward (\<lambda>r :: Episode RequireId. e_pubDate (snd r))"
  define L where "L = array_sort ?cmp [(3, ?c), (2, ?b), (1, ?a)]"
  have pid: "e_podcastId (snd (withPodcastId m 1)) = 1" for m by (simp add: withPodcastId_def)
  have "store_getEpisodes 1 ?A = L"
    unfolding store_getEpisodes_eq scenarioAdded_toArray L_def by (simp add: pid)
  then have st: "storedEpisodesOf 1 ?A = map (\<lambda>r. (Some (fst r), snd r)) L"
    by (simp add: storedEpisodesOf_def)
  have L: "L \<in> {[(3, ?c), (2, ?b), (1, ?a)], [(3, ?c), (1, ?a), (2, ?b)], [(2, ?b), (3, ?c), (1, ?a)],
                  [(2, ?b), (1, ?a), (3, ?c)], [(1, ?a), (3, ?c), (2, ?b)], [(1, ?a), (2, ?b), (3, ?c)]}"
    unfolding L_def by (rule array_sort_three)
  have ids: "e_podcastIndexOrgId ?a = 1" "e_podcastIndexOrgId ?b = 2" "e_podcastIndexOrgId ?c = 3"
    by (simp_all add: withPodcastId_def mapPodcastIndexOrgEpisodeToStorage_def)
  show ?thesis
    unfolding scenarioRefreshed_episodes st scenarioAdded_episodes
    by (rule reconcile_three[OF ids _ _ _ L]) simp_all
qed

lemma wf_ctrl_updateEpisodeCurrentTime:
  assumes "wf_database db"
  shows "wf_database (ctrl_updateEpisodeCurrentTime now k position db)"
proof (cases "rows (episodes db) k")
  case None
  with assms show ?thesis
    by (simp add: ctrl_updateEpisodeCurrentTime_def store_updateEpisode_def ec_id_noEpisodeChanges)
next
  case (Some e)
  from assms have "wf_table (episodes db)" by (simp add: wf_database_def)
  with wf_table_visible[OF this Some]
  have "wf_table ((episodes db)\<lparr>rows := (rows (episodes db))(k \<mapsto> v)\<rparr>)" for v
    by (auto simp: wf_table_def)
  with assms Some show ?thesis
    by (simp add: ctrl_updateEpisodeCurrentTime_def store_updateEpisode_def ec_id_noEpisodeChanges
        wf_database_def Let_def)
qed

lemma wf_exampleListened: "wf_database exampleListened"
  unfolding exampleListened_def by (rule wf_ctrl_updateEpisodeCurrentTime[OF wf_exampleDatabase])

lemma refresh_covers:
  assumes wf: "wf_database db" and mem: "(pid, P) \<in> set (store_getPodcasts db)"
    and fetch: "getEpisodes c (p_feedUrl P) = Inr R"
  shows "\<forall>x\<in>set R. pie_id x \<in> pio ` set (storedEpisodesOf pid (refreshPodcast c (pid, P) db))"
proof
  let ?L = "storedEpisodesOf pid db"
  let ?X = "reconcile pid R ?L"
  let ?db' = "refreshPodcast c (pid, P) db"
  have ep: "episodes ?db' = bulkPut ?X (episodes db)"
    by (simp add: refreshPodcast_fetched[OF wf mem fetch])
  from wf have wfe: "wf_table (episodes db)" by (simp add: wf_database_def)
  from refresh_fetched(2)[OF wf mem fetch] have wfe': "wf_table (episodes ?db')"
    by (simp add: wf_database_def)
  obtain f where
    pos: "\<And>i. i < length ?X \<Longrightarrow> rows (episodes ?db') (f i) = Some (snd (?X ! i))"
    unfolding ep using refresh_positions[OF wfe, of pid R] by metis
  fix x assume "x \<in> set R"
  then have "pie_id x \<in> pio ` set ?X" by (simp add: pio_set_reconcile)
  then obtain i where i: "i < length ?X" "pio (?X ! i) = pie_id x"
    by (auto simp: in_set_conv_nth)
  have "e_podcastId (snd (?X ! i)) = pid"
    by (rule podcastId_reconcile[where L="?L" and p=pid and R=R, OF storedEpisodesOf_podcastId])
      (use i(1) in simp)
  with pos[OF i(1)] wf_table_visible[OF wfe' pos[OF i(1)]]
  have "(Some (f i), snd (?X ! i)) \<in> set (storedEpisodesOf pid ?db')" by (simp add: storedEpisodesOf_iff)
  then have "pio (Some (f i), snd (?X ! i)) \<in> pio ` set (storedEpisodesOf pid ?db')" by (rule imageI)
  with i(2) show "pie_id x \<in> pio ` set (storedEpisodesOf pid ?db')" by simp
qed

lemma refresh_covered_keys:
  assumes wf: "wf_database db" and mem: "(pid, P) \<in> set (store_getPodcasts db)"
    and fetch: "getEpisodes c (p_feedUrl P) = Inr R"
    and cov: "\<forall>x\<in>set R. pie_id x \<in> pio ` set (storedEpisodesOf pid db)"
  shows "nextKey (episodes (refreshPodcast c (pid, P) db)) = nextKey (episodes db)
       \<and> (\<forall>k. rows (episodes (refreshPodcast c (pid, P) db)) k = None \<longleftrightarrow> rows (episodes db) k = None)"
proof -
  let ?L = "storedEpisodesOf pid db"
  let ?X = "reconcile pid R ?L"
  let ?db' = "refreshPodcast c (pid, P) db"
  let ?t = "episodes db"
  have ep: "episodes ?db' = bulkPut ?X ?t"
    by (simp add: refreshPodcast_fetched[OF wf mem fetch])
  obtain A N where X: "?X = A @ N" "map fst A = map fst ?L" "\<forall>r\<in>set N. fst r = None"
    using struct_reconcile by blast
  have "map pio ?X = map pio ?L" by (rule pio_map_reconcile_matched[OF cov])
  then have "length ?X = length ?L" by (metis length_map)
  moreover have "length A = length ?L" using X(2) by (metis length_map)
  ultimately have N: "N = []" using X(1) by (metis append_eq_conv_conj take_all_iff order_refl length_0_conv length_append add_cancel_right_right)
  note bp = bulkPut_reconciled[OF storedEpisodesOf_keys distinct_storedEpisodesOf X, folded ep]
  have n: "nextKey (episodes ?db') = nextKey ?t" using bp(1) by (simp add: N)
  have "rows (episodes ?db') k = None \<longleftrightarrow> rows ?t k = None" for k
  proof (cases "Some k \<in> fst ` set ?L")
    case True
    then obtain v where "(Some k, v) \<in> set ?L" by force
    then have 1: "rows ?t k \<noteq> None" by (simp add: storedEpisodesOf_iff)
    from True have "Some k \<in> set (map fst A)" using X(2) by simp
    then obtain v' where "(Some k, v') \<in> set A" by force
    from bp(2)[OF this] 1 show ?thesis by simp
  next
    case False
    show ?thesis
    proof (cases "k < nextKey ?t")
      case True
      from bp(3)[OF True False] show ?thesis by simp
    next
      case False
      then have "nextKey ?t + length N \<le> k" by (simp add: N)
      from bp(5)[OF this] show ?thesis by simp
    qed
  qed
  with n show ?thesis by blast
qed

lemma covered_cong:
  "storedEpisodesOf (fst p) db' = storedEpisodesOf (fst p) db \<Longrightarrow> covered c p db' = covered c p db"
  by (simp add: covered_def split: sum.splits)

lemma refresh_covered:
  assumes wf: "wf_database db" and mem: "p \<in> set (store_getPodcasts db)"
  shows "covered c p (refreshPodcast c p db)"
proof -
  obtain pid P where p: "p = (pid, P)" by (cases p)
  show ?thesis
  proof (cases "getEpisodes c (p_feedUrl P)")
    case (Inl err) then show ?thesis by (simp add: covered_def p)
  next
    case (Inr R)
    from refresh_covers[OF wf mem[unfolded p] Inr] Inr show ?thesis by (simp add: covered_def p)
  qed
qed

lemma loop_covers:
  assumes "wf_database db" and "set Ps \<subseteq> set (store_getPodcasts db)" and "distinct (map fst Ps)"
  shows "\<forall>p\<in>set Ps. covered c p (snd (updatePodcasts_loop c Ps db))"
  using assms
proof (induction Ps arbitrary: db)
  case Nil then show ?case by simp
next
  case (Cons p Ps)
  let ?db1 = "refreshPodcast c p db"
  from Cons.prems have mem: "p \<in> set (store_getPodcasts db)" by simp
  note ra = refresh_any[OF Cons.prems(1) mem, where c=c]
  have "store_getPodcasts ?db1 = store_getPodcasts db" using ra by (simp add: store_getPodcasts_def)
  with Cons.prems have sub: "set Ps \<subseteq> set (store_getPodcasts ?db1)" by simp
  from ra have wf1: "wf_database ?db1" by blast
  from Cons.prems(3) have dPs: "distinct (map fst Ps)" and nin: "fst p \<notin> fst ` set Ps" by simp_all
  have "\<forall>q\<in>set Ps. fst q \<noteq> fst p \<or> \<not> fetched c q"
  proof (intro ballI disjI1)
    fix q assume "q \<in> set Ps"
    then have "fst q \<in> fst ` set Ps" by (rule imageI)
    with nin show "fst q \<noteq> fst p" by metis
  qed
  from loop_frame[OF wf1 sub this]
  have "storedEpisodesOf (fst p) (snd (updatePodcasts_loop c Ps ?db1)) = storedEpisodesOf (fst p) ?db1"
    by blast
  from covered_cong[OF this] refresh_covered[OF Cons.prems(1) mem]
  have "covered c p (snd (updatePodcasts_loop c Ps ?db1))" by simp
  with Cons.IH[OF wf1 sub dPs] show ?case by (simp only: loop_Cons_snd) simp
qed

lemma loop_covered_keys:
  assumes "wf_database db" and "set Ps \<subseteq> set (store_getPodcasts db)"
    and "\<forall>p\<in>set Ps. covered c p db"
  shows "nextKey (episodes (snd (updatePodcasts_loop c Ps db))) = nextKey (episodes db)
       \<and> (\<forall>k. rows (episodes (snd (updatePodcasts_loop c Ps db))) k = None \<longleftrightarrow> rows (episodes db) k = None)"
  using assms
proof (induction Ps arbitrary: db)
  case Nil then show ?case by simp
next
  case (Cons p Ps)
  obtain pid P where p: "p = (pid, P)" by (cases p)
  let ?db1 = "refreshPodcast c p db"
  from Cons.prems have mem: "p \<in> set (store_getPodcasts db)" by simp
  note ra = refresh_any[OF Cons.prems(1) mem, where c=c]
  have gp: "store_getPodcasts ?db1 = store_getPodcasts db" using ra by (simp add: store_getPodcasts_def)
  with Cons.prems have sub: "set Ps \<subseteq> set (store_getPodcasts ?db1)" by simp
  from ra have wf1: "wf_database ?db1" by blast
  have keys1: "nextKey (episodes ?db1) = nextKey (episodes db)
       \<and> (\<forall>k. rows (episodes ?db1) k = None \<longleftrightarrow> rows (episodes db) k = None)"
  proof (cases "getEpisodes c (p_feedUrl P)")
    case (Inl err)
    then have "?db1 = db" by (simp add: p refreshPodcast_failed)
    then show ?thesis by simp
  next
    case (Inr R)
    from Cons.prems(3) Inr have "\<forall>x\<in>set R. pie_id x \<in> pio ` set (storedEpisodesOf pid db)"
      by (simp add: covered_def p)
    from refresh_covered_keys[OF Cons.prems(1) mem[unfolded p] Inr this] show ?thesis by (simp add: p)
  qed
  have cov1: "\<forall>q\<in>set Ps. covered c q ?db1"
  proof
    fix q assume q: "q \<in> set Ps"
    show "covered c q ?db1"
    proof (cases "fst q = fst p")
      case True
      from q Cons.prems(2) have "q \<in> set (store_getPodcasts db)" by auto
      then have "(fst p, snd q) \<in> set (store_getPodcasts db)" using True by (metis prod.collapse)
      moreover from mem have "(fst p, snd p) \<in> set (store_getPodcasts db)" by simp
      ultimately have "snd q = snd p" by (rule same_key_same_podcast[rotated])
      with True have "q = p" by (simp add: prod_eq_iff)
      with refresh_covered[OF Cons.prems(1) mem] show ?thesis by simp
    next
      case False
      with ra have "storedEpisodesOf (fst q) ?db1 = storedEpisodesOf (fst q) db" by blast
      from covered_cong[OF this] Cons.prems(3) q show ?thesis by simp
    qed
  qed
  from Cons.IH[OF wf1 sub cov1] keys1 show ?case by (simp only: loop_Cons_snd) simp
qed

lemma loop_twice_distinct:
  assumes wf: "wf_database db" and dd: "directoryIds_distinct db"
  shows "ctrl_updatePodcasts c (snd (ctrl_updatePodcasts c db)) = ctrl_updatePodcasts c db"
proof -
  let ?Ps = "store_getPodcasts db"
  let ?db' = "snd (updatePodcasts_loop c ?Ps db)"
  from loop_invariants[OF wf subset_refl, of c]
  have pod: "podcasts ?db' = podcasts db" and wf': "wf_database ?db'" by blast+
  then have Ps': "store_getPodcasts ?db' = ?Ps" by (simp add: store_getPodcasts_def)
  have st: "\<forall>p\<in>set ?Ps. settled c p ?db'"
    by (rule loop_settles[OF wf subset_refl distinct_store_getPodcasts dd])
  have "updatePodcasts_loop c ?Ps ?db' = (Inr (), ?db')"
    by (rule loop_settled_id[OF wf' _ st]) (simp add: Ps')
  moreover have "updatePodcasts_loop c ?Ps db = (Inr (), ?db')"
    by (rule prod_eqI) (simp_all add: loop_resolves)
  ultimately show ?thesis by (simp add: ctrl_updatePodcasts_def Ps')
qed

section \<open>The claims\<close>

text \<open>
  The database after a method of the controller is the database once the writes that the
  method has issued are applied, also where the method does not wait for them.
\<close>

text \<open>
  C1. On an empty database the podcast is added while the directory lists the episodes
  \<open>ep1\<close>, \<open>ep2\<close>, \<open>ep3\<close> under the ids 1, 2, 3: the podcast gets the key 1 and the episodes
  the keys 1, 2, 3, each stored with the metadata of its payload. After \<open>updatePodcasts()\<close>
  with a directory that lists \<open>ep2'\<close>, \<open>ep3'\<close>, \<open>ep4\<close> under the ids 2, 3, 4, the record
  with the key 1 is as it was, the records with the keys 2 and 3 hold the metadata of
  \<open>ep2'\<close> and of \<open>ep3'\<close>, the episode with the id 4 is a new record with the key 4, the
  metadata of \<open>ep4\<close> and the podcast's key as \<open>podcastId\<close>, and \<open>getEpisodes\<close> of the
  podcast has 4 episodes.
\<close>

theorem scenario_refresh_keeps_updates_appends:
  "map fst (store_getPodcasts (scenarioAdded now pm toAdd ep1 ep2 ep3)) = [1]
   \<and> toArray (episodes (scenarioAdded now pm toAdd ep1 ep2 ep3))
     = [(1, \<lparr>e_podcastId = 1, e_title = Some (pie_title ep1), e_link = Some (pie_link ep1),
           e_description = Some (pie_description ep1), e_imageUrl = Some (pie_imageUrl ep1),
           e_categories = None, e_pubDate = Some (pie_pubDate ep1), e_enclosure = pie_enclosure ep1,
           e_duration = None, e_guid = Some (pie_guid ep1), e_podcastIndexOrgId = 1,
           e_position = None, e_lastTimeListened = None, e_finished = None\<rparr>),
        (2, \<lparr>e_podcastId = 1, e_title = Some (pie_title ep2), e_link = Some (pie_link ep2),
           e_description = Some (pie_description ep2), e_imageUrl = Some (pie_imageUrl ep2),
           e_categories = None, e_pubDate = Some (pie_pubDate ep2), e_enclosure = pie_enclosure ep2,
           e_duration = None, e_guid = Some (pie_guid ep2), e_podcastIndexOrgId = 2,
           e_position = None, e_lastTimeListened = None, e_finished = None\<rparr>),
        (3, \<lparr>e_podcastId = 1, e_title = Some (pie_title ep3), e_link = Some (pie_link ep3),
           e_description = Some (pie_description ep3), e_imageUrl = Some (pie_imageUrl ep3),
           e_categories = None, e_pubDate = Some (pie_pubDate ep3), e_enclosure = pie_enclosure ep3,
           e_duration = None, e_guid = Some (pie_guid ep3), e_podcastIndexOrgId = 3,
           e_position = None, e_lastTimeListened = None, e_finished = None\<rparr>)]
   \<and> toArray (episodes (scenarioRefreshed pm' ep2' ep3' ep4 (scenarioAdded now pm toAdd ep1 ep2 ep3)))
     = [(1, \<lparr>e_podcastId = 1, e_title = Some (pie_title ep1), e_link = Some (pie_link ep1),
           e_description = Some (pie_description ep1), e_imageUrl = Some (pie_imageUrl ep1),
           e_categories = None, e_pubDate = Some (pie_pubDate ep1), e_enclosure = pie_enclosure ep1,
           e_duration = None, e_guid = Some (pie_guid ep1), e_podcastIndexOrgId = 1,
           e_position = None, e_lastTimeListened = None, e_finished = None\<rparr>),
        (2, \<lparr>e_podcastId = 1, e_title = Some (pie_title ep2'), e_link = Some (pie_link ep2'),
           e_description = Some (pie_description ep2'), e_imageUrl = Some (pie_imageUrl ep2'),
           e_categories = None, e_pubDate = Some (pie_pubDate ep2'), e_enclosure = pie_enclosure ep2',
           e_duration = None, e_guid = Some (pie_guid ep2'), e_podcastIndexOrgId = 2,
           e_position = None, e_lastTimeListened = None, e_finished = None\<rparr>),
        (3, \<lparr>e_podcastId = 1, e_title = Some (pie_title ep3'), e_link = Some (pie_link ep3'),
           e_description = Some (pie_description ep3'), e_imageUrl = Some (pie_imageUrl ep3'),
           e_categories = None, e_pubDate = Some (pie_pubDate ep3'), e_enclosure = pie_enclosure ep3',
           e_duration = None, e_guid = Some (pie_guid ep3'), e_podcastIndexOrgId = 3,
           e_position = None, e_lastTimeListened = None, e_finished = None\<rparr>),
        (4, \<lparr>e_podcastId = 1, e_title = Some (pie_title ep4), e_link = Some (pie_link ep4),
           e_description = Some (pie_description ep4), e_imageUrl = Some (pie_imageUrl ep4),
           e_categories = None, e_pubDate = Some (pie_pubDate ep4), e_enclosure = pie_enclosure ep4,
           e_duration = None, e_guid = Some (pie_guid ep4), e_podcastIndexOrgId = 4,
           e_position = None, e_lastTimeListened = None, e_finished = None\<rparr>)]
   \<and> rows (episodes (scenarioRefreshed pm' ep2' ep3' ep4 (scenarioAdded now pm toAdd ep1 ep2 ep3))) 1
     = rows (episodes (scenarioAdded now pm toAdd ep1 ep2 ep3)) 1
   \<and> length (store_getEpisodes 1 (scenarioRefreshed pm' ep2' ep3' ep4 (scenarioAdded now pm toAdd ep1 ep2 ep3))) = 4"
proof -
  let ?A = "scenarioAdded now pm toAdd ep1 ep2 ep3"
  let ?B = "scenarioRefreshed pm' ep2' ep3' ep4 ?A"
  note a = scenarioAdded_toArray[of now pm toAdd ep1 ep2 ep3, unfolded withPodcastId_mapped]
  note b = scenarioRefreshed_toArray[of pm' ep2' ep3' ep4 now pm toAdd ep1 ep2 ep3,
      unfolded spreadOver_mapped withPodcastId_mapped]
  have 1: "map fst (store_getPodcasts ?A) = [1]" by (rule scenarioAdded_podcasts)
  have 2: "toArray (episodes ?A)
     = [(1, \<lparr>e_podcastId = 1, e_title = Some (pie_title ep1), e_link = Some (pie_link ep1),
           e_description = Some (pie_description ep1), e_imageUrl = Some (pie_imageUrl ep1),
           e_categories = None, e_pubDate = Some (pie_pubDate ep1), e_enclosure = pie_enclosure ep1,
           e_duration = None, e_guid = Some (pie_guid ep1), e_podcastIndexOrgId = 1,
           e_position = None, e_lastTimeListened = None, e_finished = None\<rparr>),
        (2, \<lparr>e_podcastId = 1, e_title = Some (pie_title ep2), e_link = Some (pie_link ep2),
           e_description = Some (pie_description ep2), e_imageUrl = Some (pie_imageUrl ep2),
           e_categories = None, e_pubDate = Some (pie_pubDate ep2), e_enclosure = pie_enclosure ep2,
           e_duration = None, e_guid = Some (pie_guid ep2), e_podcastIndexOrgId = 2,
           e_position = None, e_lastTimeListened = None, e_finished = None\<rparr>),
        (3, \<lparr>e_podcastId = 1, e_title = Some (pie_title ep3), e_link = Some (pie_link ep3),
           e_description = Some (pie_description ep3), e_imageUrl = Some (pie_imageUrl ep3),
           e_categories = None, e_pubDate = Some (pie_pubDate ep3), e_enclosure = pie_enclosure ep3,
           e_duration = None, e_guid = Some (pie_guid ep3), e_podcastIndexOrgId = 3,
           e_position = None, e_lastTimeListened = None, e_finished = None\<rparr>)]"
    using a by simp
  have 3: "toArray (episodes ?B)
     = [(1, \<lparr>e_podcastId = 1, e_title = Some (pie_title ep1), e_link = Some (pie_link ep1),
           e_description = Some (pie_description ep1), e_imageUrl = Some (pie_imageUrl ep1),
           e_categories = None, e_pubDate = Some (pie_pubDate ep1), e_enclosure = pie_enclosure ep1,
           e_duration = None, e_guid = Some (pie_guid ep1), e_podcastIndexOrgId = 1,
           e_position = None, e_lastTimeListened = None, e_finished = None\<rparr>),
        (2, \<lparr>e_podcastId = 1, e_title = Some (pie_title ep2'), e_link = Some (pie_link ep2'),
           e_description = Some (pie_description ep2'), e_imageUrl = Some (pie_imageUrl ep2'),
           e_categories = None, e_pubDate = Some (pie_pubDate ep2'), e_enclosure = pie_enclosure ep2',
           e_duration = None, e_guid = Some (pie_guid ep2'), e_podcastIndexOrgId = 2,
           e_position = None, e_lastTimeListened = None, e_finished = None\<rparr>),
        (3, \<lparr>e_podcastId = 1, e_title = Some (pie_title ep3'), e_link = Some (pie_link ep3'),
           e_description = Some (pie_description ep3'), e_imageUrl = Some (pie_imageUrl ep3'),
           e_categories = None, e_pubDate = Some (pie_pubDate ep3'), e_enclosure = pie_enclosure ep3',
           e_duration = None, e_guid = Some (pie_guid ep3'), e_podcastIndexOrgId = 3,
           e_position = None, e_lastTimeListened = None, e_finished = None\<rparr>),
        (4, \<lparr>e_podcastId = 1, e_title = Some (pie_title ep4), e_link = Some (pie_link ep4),
           e_description = Some (pie_description ep4), e_imageUrl = Some (pie_imageUrl ep4),
           e_categories = None, e_pubDate = Some (pie_pubDate ep4), e_enclosure = pie_enclosure ep4,
           e_duration = None, e_guid = Some (pie_guid ep4), e_podcastIndexOrgId = 4,
           e_position = None, e_lastTimeListened = None, e_finished = None\<rparr>)]"
    using b by simp
  have "(1, \<lparr>e_podcastId = 1, e_title = Some (pie_title ep1), e_link = Some (pie_link ep1),
           e_description = Some (pie_description ep1), e_imageUrl = Some (pie_imageUrl ep1),
           e_categories = None, e_pubDate = Some (pie_pubDate ep1), e_enclosure = pie_enclosure ep1,
           e_duration = None, e_guid = Some (pie_guid ep1), e_podcastIndexOrgId = 1,
           e_position = None, e_lastTimeListened = None, e_finished = None\<rparr>) \<in> set (toArray (episodes ?A))"
    unfolding 2 by simp
  moreover have "(1, \<lparr>e_podcastId = 1, e_title = Some (pie_title ep1), e_link = Some (pie_link ep1),
           e_description = Some (pie_description ep1), e_imageUrl = Some (pie_imageUrl ep1),
           e_categories = None, e_pubDate = Some (pie_pubDate ep1), e_enclosure = pie_enclosure ep1,
           e_duration = None, e_guid = Some (pie_guid ep1), e_podcastIndexOrgId = 1,
           e_position = None, e_lastTimeListened = None, e_finished = None\<rparr>) \<in> set (toArray (episodes ?B))"
    unfolding 3 by simp
  ultimately have 4: "rows (episodes ?B) 1 = rows (episodes ?A) 1"
    unfolding toArray_iff by simp
  have "length (store_getEpisodes 1 ?B) = 4"
    unfolding store_getEpisodes_eq length_array_sort 3 by simp
  with 1 2 3 4 show ?thesis by blast
qed

theorem scenario_refresh_keeps_updates_appends_witness:
  "toArray (episodes scenarioExample)
   = [(1, \<lparr>e_podcastId = 1, e_title = Some ''one'', e_link = Some ''https://example.com/ep'',
           e_description = Some ''text'', e_imageUrl = Some ''https://example.com/ep.png'',
           e_categories = None, e_pubDate = Some 10, e_enclosure = None,
           e_duration = None, e_guid = Some ''one'', e_podcastIndexOrgId = 1,
           e_position = None, e_lastTimeListened = None, e_finished = None\<rparr>),
      (2, \<lparr>e_podcastId = 1, e_title = Some ''two, revised'', e_link = Some ''https://example.com/ep'',
           e_description = Some ''text'', e_imageUrl = Some ''https://example.com/ep.png'',
           e_categories = None, e_pubDate = Some 21, e_enclosure = Some \<lparr>enc_url = ''https://example.com/ep.mp3'', enc_length = 1000, enc_type = ''audio/mpeg''\<rparr>,
           e_duration = None, e_guid = Some ''two, revised'', e_podcastIndexOrgId = 2,
           e_position = None, e_lastTimeListened = None, e_finished = None\<rparr>),
      (3, \<lparr>e_podcastId = 1, e_title = Some ''three, revised'', e_link = Some ''https://example.com/ep'',
           e_description = Some ''text'', e_imageUrl = Some ''https://example.com/ep.png'',
           e_categories = None, e_pubDate = Some 31, e_enclosure = None,
           e_duration = None, e_guid = Some ''three, revised'', e_podcastIndexOrgId = 3,
           e_position = None, e_lastTimeListened = None, e_finished = None\<rparr>),
      (4, \<lparr>e_podcastId = 1, e_title = Some ''four'', e_link = Some ''https://example.com/ep'',
           e_description = Some ''text'', e_imageUrl = Some ''https://example.com/ep.png'',
           e_categories = None, e_pubDate = Some 40, e_enclosure = None,
           e_duration = None, e_guid = Some ''four'', e_podcastIndexOrgId = 4,
           e_position = None, e_lastTimeListened = None, e_finished = None\<rparr>)]
   \<and> map (\<lambda>r. (fst r, e_title (snd r), e_link (snd r), e_pubDate (snd r), e_guid (snd r),
                 e_enclosure (snd r) = None))
        (store_getEpisodes 1 scenarioExample)
      = [(4, Some ''four'', Some ''https://example.com/ep'', Some 40, Some ''four'', True),
         (3, Some ''three, revised'', Some ''https://example.com/ep'', Some 31, Some ''three, revised'', True),
         (2, Some ''two, revised'', Some ''https://example.com/ep'', Some 21, Some ''two, revised'', False),
         (1, Some ''one'', Some ''https://example.com/ep'', Some 10, Some ''one'', True)]"
proof -
  have o: "map (\<lambda>r. (fst r, e_title (snd r), e_link (snd r), e_pubDate (snd r), e_guid (snd r),
                 e_enclosure (snd r) = None))
        (store_getEpisodes 1 scenarioExample)
      = [(4, Some ''four'', Some ''https://example.com/ep'', Some 40, Some ''four'', True),
         (3, Some ''three, revised'', Some ''https://example.com/ep'', Some 31, Some ''three, revised'', True),
         (2, Some ''two, revised'', Some ''https://example.com/ep'', Some 21, Some ''two, revised'', False),
         (1, Some ''one'', Some ''https://example.com/ep'', Some 10, Some ''one'', True)]"
    by code_simp
  from scenario_refresh_keeps_updates_appends[of 1000 examplePodcastAtDirectory
      "examplePodcast ''''" "exampleEpisode 0 10 ''one''" "exampleEpisode 0 20 ''two''"
      "exampleEnclosed 0 30 ''three''" examplePodcastAtDirectory
      "exampleEnclosed 0 21 ''two, revised''" "exampleEpisode 0 31 ''three, revised''"
      "exampleEpisode 0 40 ''four''"]
  have "toArray (episodes scenarioExample)
   = [(1, \<lparr>e_podcastId = 1, e_title = Some ''one'', e_link = Some ''https://example.com/ep'',
           e_description = Some ''text'', e_imageUrl = Some ''https://example.com/ep.png'',
           e_categories = None, e_pubDate = Some 10, e_enclosure = None,
           e_duration = None, e_guid = Some ''one'', e_podcastIndexOrgId = 1,
           e_position = None, e_lastTimeListened = None, e_finished = None\<rparr>),
      (2, \<lparr>e_podcastId = 1, e_title = Some ''two, revised'', e_link = Some ''https://example.com/ep'',
           e_description = Some ''text'', e_imageUrl = Some ''https://example.com/ep.png'',
           e_categories = None, e_pubDate = Some 21, e_enclosure = Some \<lparr>enc_url = ''https://example.com/ep.mp3'', enc_length = 1000, enc_type = ''audio/mpeg''\<rparr>,
           e_duration = None, e_guid = Some ''two, revised'', e_podcastIndexOrgId = 2,
           e_position = None, e_lastTimeListened = None, e_finished = None\<rparr>),
      (3, \<lparr>e_podcastId = 1, e_title = Some ''three, revised'', e_link = Some ''https://example.com/ep'',
           e_description = Some ''text'', e_imageUrl = Some ''https://example.com/ep.png'',
           e_categories = None, e_pubDate = Some 31, e_enclosure = None,
           e_duration = None, e_guid = Some ''three, revised'', e_podcastIndexOrgId = 3,
           e_position = None, e_lastTimeListened = None, e_finished = None\<rparr>),
      (4, \<lparr>e_podcastId = 1, e_title = Some ''four'', e_link = Some ''https://example.com/ep'',
           e_description = Some ''text'', e_imageUrl = Some ''https://example.com/ep.png'',
           e_categories = None, e_pubDate = Some 40, e_enclosure = None,
           e_duration = None, e_guid = Some ''four'', e_podcastIndexOrgId = 4,
           e_position = None, e_lastTimeListened = None, e_finished = None\<rparr>)]"
    unfolding scenarioExample_def by (simp add: exampleEpisode_def exampleEnclosed_def)
  with o show ?thesis by simp
qed

text \<open>
  C2, as amended. For a database that satisfies the invariant, after \<open>updatePodcasts()\<close>:
  every stored episode is still stored under its key, with \<open>podcastId\<close>, \<open>categories\<close>,
  \<open>duration\<close>, \<open>position\<close>, \<open>lastTimeListened\<close> and \<open>finished\<close> as before, and it is either
  unchanged or has \<open>title\<close>, \<open>link\<close>, \<open>description\<close>, \<open>pubDate\<close>, \<open>imageUrl\<close>, \<open>enclosure\<close>,
  \<open>guid\<close> and \<open>podcastIndexOrgId\<close> set from a fetched episode of its podcast that has its
  directory id, the enclosure being absent when the payload has none; the stored episode
  that \<open>findIndex\<close> matches for a fetched episode has these eight properties set from the
  last fetched episode with that id; and a fetched episode that \<open>findIndex\<close> matches with
  no stored episode is stored under a new key as a record with the metadata of the last
  fetched episode with that id, the podcast's key as \<open>podcastId\<close> and no user data.
\<close>

theorem updatePodcasts_merges_by_directory_id:
  assumes wf: "wf_database db"
  shows "(\<forall>k v. rows (episodes db) k = Some v \<longrightarrow>
            (\<exists>v'. rows (episodes (snd (ctrl_updatePodcasts c db))) k = Some v'
               \<and> e_podcastId v' = e_podcastId v \<and> e_categories v' = e_categories v
               \<and> e_duration v' = e_duration v \<and> e_position v' = e_position v
               \<and> e_lastTimeListened v' = e_lastTimeListened v \<and> e_finished v' = e_finished v
               \<and> e_podcastIndexOrgId v' = e_podcastIndexOrgId v
               \<and> (v' = v \<or> (\<exists>P R x. (e_podcastId v, P) \<in> set (store_getPodcasts db)
                       \<and> getEpisodes c (p_feedUrl P) = Inr R \<and> x \<in> set R
                       \<and> pie_id x = e_podcastIndexOrgId v
                       \<and> v' = v\<lparr>e_title := Some (pie_title x), e_link := Some (pie_link x),
                              e_description := Some (pie_description x), e_pubDate := Some (pie_pubDate x),
                              e_imageUrl := Some (pie_imageUrl x), e_enclosure := pie_enclosure x,
                              e_guid := Some (pie_guid x), e_podcastIndexOrgId := pie_id x\<rparr>))))
       \<and> (\<forall>pid P R x k v. (pid, P) \<in> set (store_getPodcasts db) \<and> getEpisodes c (p_feedUrl P) = Inr R
              \<and> x \<in> set R
              \<and> find (\<lambda>r. e_podcastIndexOrgId (snd r) = pie_id x) (ctrl_getEpisodes (p_feedUrl P) db)
                   = Some (Some k, v)
            \<longrightarrow> (\<exists>x'. lastWith R (pie_id x) = Some x'
                  \<and> rows (episodes (snd (ctrl_updatePodcasts c db))) k
                      = Some (v\<lparr>e_title := Some (pie_title x'), e_link := Some (pie_link x'),
                              e_description := Some (pie_description x'), e_pubDate := Some (pie_pubDate x'),
                              e_imageUrl := Some (pie_imageUrl x'), e_enclosure := pie_enclosure x',
                              e_guid := Some (pie_guid x'), e_podcastIndexOrgId := pie_id x'\<rparr>)))
       \<and> (\<forall>pid P R x. (pid, P) \<in> set (store_getPodcasts db) \<and> getEpisodes c (p_feedUrl P) = Inr R
              \<and> x \<in> set R
              \<and> find (\<lambda>r. e_podcastIndexOrgId (snd r) = pie_id x) (ctrl_getEpisodes (p_feedUrl P) db) = None
            \<longrightarrow> (\<exists>k x'. nextKey (episodes db) \<le> k \<and> lastWith R (pie_id x) = Some x'
                  \<and> rows (episodes (snd (ctrl_updatePodcasts c db))) k
                      = Some \<lparr>e_podcastId = pid, e_title = Some (pie_title x'), e_link = Some (pie_link x'),
                             e_description = Some (pie_description x'), e_imageUrl = Some (pie_imageUrl x'),
                             e_categories = None, e_pubDate = Some (pie_pubDate x'), e_enclosure = pie_enclosure x',
                             e_duration = None, e_guid = Some (pie_guid x'), e_podcastIndexOrgId = pie_id x',
                             e_position = None, e_lastTimeListened = None, e_finished = None\<rparr>))"
proof (intro conjI allI impI)
  fix k v assume row: "rows (episodes db) k = Some v"
  from loop_rows_derived[OF wf subset_refl row, of c] obtain v' where
    v': "rows (episodes (snd (ctrl_updatePodcasts c db))) k = Some v'"
    and d: "v' = v \<or> (\<exists>P R x. (e_podcastId v, P) \<in> set (store_getPodcasts db)
                       \<and> getEpisodes c (p_feedUrl P) = Inr R \<and> x \<in> set R
                       \<and> pie_id x = e_podcastIndexOrgId v
                       \<and> v' = snd (spreadOver (Some k, v) (mapped x)))"
    unfolding ctrl_updatePodcasts_def by blast
  from d have d': "v' = v \<or> (\<exists>P R x. (e_podcastId v, P) \<in> set (store_getPodcasts db)
                       \<and> getEpisodes c (p_feedUrl P) = Inr R \<and> x \<in> set R
                       \<and> pie_id x = e_podcastIndexOrgId v
                       \<and> v' = v\<lparr>e_title := Some (pie_title x), e_link := Some (pie_link x),
                              e_description := Some (pie_description x), e_pubDate := Some (pie_pubDate x),
                              e_imageUrl := Some (pie_imageUrl x), e_enclosure := pie_enclosure x,
                              e_guid := Some (pie_guid x), e_podcastIndexOrgId := pie_id x\<rparr>)"
    unfolding spreadOver_mapped by simp
  from d' have "e_podcastId v' = e_podcastId v \<and> e_categories v' = e_categories v
               \<and> e_duration v' = e_duration v \<and> e_position v' = e_position v
               \<and> e_lastTimeListened v' = e_lastTimeListened v \<and> e_finished v' = e_finished v
               \<and> e_podcastIndexOrgId v' = e_podcastIndexOrgId v"
    by auto
  with v' d' show "\<exists>v'. rows (episodes (snd (ctrl_updatePodcasts c db))) k = Some v'
               \<and> e_podcastId v' = e_podcastId v \<and> e_categories v' = e_categories v
               \<and> e_duration v' = e_duration v \<and> e_position v' = e_position v
               \<and> e_lastTimeListened v' = e_lastTimeListened v \<and> e_finished v' = e_finished v
               \<and> e_podcastIndexOrgId v' = e_podcastIndexOrgId v
               \<and> (v' = v \<or> (\<exists>P R x. (e_podcastId v, P) \<in> set (store_getPodcasts db)
                       \<and> getEpisodes c (p_feedUrl P) = Inr R \<and> x \<in> set R
                       \<and> pie_id x = e_podcastIndexOrgId v
                       \<and> v' = v\<lparr>e_title := Some (pie_title x), e_link := Some (pie_link x),
                              e_description := Some (pie_description x), e_pubDate := Some (pie_pubDate x),
                              e_imageUrl := Some (pie_imageUrl x), e_enclosure := pie_enclosure x,
                              e_guid := Some (pie_guid x), e_podcastIndexOrgId := pie_id x\<rparr>))"
    by blast
next
  fix pid P R x k v
  assume a: "(pid, P) \<in> set (store_getPodcasts db) \<and> getEpisodes c (p_feedUrl P) = Inr R
              \<and> x \<in> set R
              \<and> find (\<lambda>r. e_podcastIndexOrgId (snd r) = pie_id x) (ctrl_getEpisodes (p_feedUrl P) db)
                   = Some (Some k, v)"
  then have mem: "(pid, P) \<in> set (store_getPodcasts db)" and R: "getEpisodes c (p_feedUrl P) = Inr R"
    and x: "x \<in> set R" by simp_all
  from a have f: "find (\<lambda>r. e_podcastIndexOrgId (snd r) = pie_id x) (storedEpisodesOf pid db) = Some (Some k, v)"
    unfolding ctrl_getEpisodes_resolved[OF wf mem] by simp
  from loop_matched[OF wf subset_refl distinct_store_getPodcasts mem R x f]
  show "\<exists>x'. lastWith R (pie_id x) = Some x'
                  \<and> rows (episodes (snd (ctrl_updatePodcasts c db))) k
                      = Some (v\<lparr>e_title := Some (pie_title x'), e_link := Some (pie_link x'),
                              e_description := Some (pie_description x'), e_pubDate := Some (pie_pubDate x'),
                              e_imageUrl := Some (pie_imageUrl x'), e_enclosure := pie_enclosure x',
                              e_guid := Some (pie_guid x'), e_podcastIndexOrgId := pie_id x'\<rparr>)"
    unfolding ctrl_updatePodcasts_def spreadOver_mapped by simp
next
  fix pid P R x
  assume a: "(pid, P) \<in> set (store_getPodcasts db) \<and> getEpisodes c (p_feedUrl P) = Inr R
              \<and> x \<in> set R
              \<and> find (\<lambda>r. e_podcastIndexOrgId (snd r) = pie_id x) (ctrl_getEpisodes (p_feedUrl P) db) = None"
  then have mem: "(pid, P) \<in> set (store_getPodcasts db)" and R: "getEpisodes c (p_feedUrl P) = Inr R"
    and x: "x \<in> set R" by simp_all
  from a have f: "find (\<lambda>r. e_podcastIndexOrgId (snd r) = pie_id x) (storedEpisodesOf pid db) = None"
    unfolding ctrl_getEpisodes_resolved[OF wf mem] by simp
  from loop_appended[OF wf subset_refl distinct_store_getPodcasts mem R x f]
  show "\<exists>k x'. nextKey (episodes db) \<le> k \<and> lastWith R (pie_id x) = Some x'
                  \<and> rows (episodes (snd (ctrl_updatePodcasts c db))) k
                      = Some \<lparr>e_podcastId = pid, e_title = Some (pie_title x'), e_link = Some (pie_link x'),
                             e_description = Some (pie_description x'), e_imageUrl = Some (pie_imageUrl x'),
                             e_categories = None, e_pubDate = Some (pie_pubDate x'), e_enclosure = pie_enclosure x',
                             e_duration = None, e_guid = Some (pie_guid x'), e_podcastIndexOrgId = pie_id x',
                             e_position = None, e_lastTimeListened = None, e_finished = None\<rparr>"
    unfolding ctrl_updatePodcasts_def withPodcastId_mapped .
qed

theorem updatePodcasts_merges_by_directory_id_witness:
  "wf_database exampleListened
   \<and> rows (episodes exampleListened) 2
      = Some \<lparr>e_podcastId = 1, e_title = Some ''two'', e_link = Some ''https://example.com/ep'',
             e_description = Some ''text'', e_imageUrl = Some ''https://example.com/ep.png'',
             e_categories = None, e_pubDate = Some 20, e_enclosure = None,
             e_duration = None, e_guid = Some ''two'', e_podcastIndexOrgId = 2,
             e_position = Some 120, e_lastTimeListened = Some 2000, e_finished = None\<rparr>
   \<and> rows (episodes (snd (ctrl_updatePodcasts (exampleClient [exampleEnclosed 2 21 ''two, revised'', exampleEpisode 4 40 ''four'']) exampleListened))) 2
      = Some \<lparr>e_podcastId = 1, e_title = Some ''two, revised'', e_link = Some ''https://example.com/ep'',
             e_description = Some ''text'', e_imageUrl = Some ''https://example.com/ep.png'',
             e_categories = None, e_pubDate = Some 21, e_enclosure = Some \<lparr>enc_url = ''https://example.com/ep.mp3'', enc_length = 1000, enc_type = ''audio/mpeg''\<rparr>,
             e_duration = None, e_guid = Some ''two, revised'', e_podcastIndexOrgId = 2,
             e_position = Some 120, e_lastTimeListened = Some 2000, e_finished = None\<rparr>
   \<and> rows (episodes (snd (ctrl_updatePodcasts (exampleClient [exampleEnclosed 2 21 ''two, revised'', exampleEpisode 4 40 ''four'']) exampleListened))) 4
      = Some \<lparr>e_podcastId = 1, e_title = Some ''four'', e_link = Some ''https://example.com/ep'',
             e_description = Some ''text'', e_imageUrl = Some ''https://example.com/ep.png'',
             e_categories = None, e_pubDate = Some 40, e_enclosure = None,
             e_duration = None, e_guid = Some ''four'', e_podcastIndexOrgId = 4,
             e_position = None, e_lastTimeListened = None, e_finished = None\<rparr>
   \<and> map (\<lambda>r. (fst r, e_title (snd r), e_pubDate (snd r), e_guid (snd r), e_position (snd r)))
        (toArray (episodes (snd (ctrl_updatePodcasts (exampleClient [exampleEnclosed 2 21 ''two, revised'', exampleEpisode 4 40 ''four'']) exampleListened))))
      = [(1, Some ''one'', Some 10, Some ''one'', None),
         (2, Some ''two, revised'', Some 21, Some ''two, revised'', Some 120),
         (3, Some ''three'', Some 30, Some ''three'', None),
         (4, Some ''four'', Some 40, Some ''four'', None)]"
proof -
  let ?x = "exampleEnclosed 2 21 ''two, revised''"
  let ?y = "exampleEpisode 4 40 ''four''"
  let ?R = "[exampleEnclosed 2 21 ''two, revised'', exampleEpisode 4 40 ''four'']"
  let ?c = "exampleClient ?R"
  let ?P = "the (rows (podcasts exampleListened) 1)"
  let ?v = "\<lparr>e_podcastId = 1, e_title = Some ''two'', e_link = Some ''https://example.com/ep'',
             e_description = Some ''text'', e_imageUrl = Some ''https://example.com/ep.png'',
             e_categories = None, e_pubDate = Some 20, e_enclosure = None,
             e_duration = None, e_guid = Some ''two'', e_podcastIndexOrgId = 2,
             e_position = Some 120, e_lastTimeListened = Some 2000, e_finished = None\<rparr>"
  have m: "(1, ?P) \<in> set (store_getPodcasts exampleListened)" by code_simp
  have f: "getEpisodes ?c (p_feedUrl ?P) = Inr ?R" by (simp add: exampleClient_def)
  have x: "?x \<in> set ?R" by simp
  have s: "find (\<lambda>r. e_podcastIndexOrgId (snd r) = pie_id ?x)
             (ctrl_getEpisodes (p_feedUrl ?P) exampleListened) = Some (Some 2, ?v)"
    by code_simp
  have l: "lastWith ?R (pie_id ?x) = Some ?x"
    by code_simp
  have r: "rows (episodes exampleListened) 2 = Some ?v" by code_simp
  have y: "?y \<in> set ?R" by simp
  have s4: "find (\<lambda>r. e_podcastIndexOrgId (snd r) = pie_id ?y)
             (ctrl_getEpisodes (p_feedUrl ?P) exampleListened) = None"
    by code_simp
  have l4: "lastWith ?R (pie_id ?y) = Some ?y"
    by code_simp
  have nk: "nextKey (episodes exampleListened) = 4"
    "nextKey (episodes (snd (ctrl_updatePodcasts ?c exampleListened))) = 5"
    by code_simp+
  from updatePodcasts_merges_by_directory_id[OF wf_exampleListened, of ?c] m f y s4
  obtain k y' where k: "nextKey (episodes exampleListened) \<le> k"
    and ly: "lastWith ?R (pie_id ?y) = Some y'"
    and ry: "rows (episodes (snd (ctrl_updatePodcasts ?c exampleListened))) k
      = Some \<lparr>e_podcastId = 1, e_title = Some (pie_title y'), e_link = Some (pie_link y'),
               e_description = Some (pie_description y'), e_imageUrl = Some (pie_imageUrl y'),
               e_categories = None, e_pubDate = Some (pie_pubDate y'), e_enclosure = pie_enclosure y',
               e_duration = None, e_guid = Some (pie_guid y'), e_podcastIndexOrgId = pie_id y',
               e_position = None, e_lastTimeListened = None, e_finished = None\<rparr>"
    by blast
  have "wf_table (episodes (snd (ctrl_updatePodcasts ?c exampleListened)))"
    using wf_ctrl_updatePodcasts[OF wf_exampleListened, of ?c] by (simp add: wf_database_def)
  from wf_table_visible[OF this ry] k nk have "k = 4" by simp
  moreover from ly l4 have "y' = ?y" by simp
  ultimately have n: "rows (episodes (snd (ctrl_updatePodcasts ?c exampleListened))) 4
      = Some \<lparr>e_podcastId = 1, e_title = Some ''four'', e_link = Some ''https://example.com/ep'',
             e_description = Some ''text'', e_imageUrl = Some ''https://example.com/ep.png'',
             e_categories = None, e_pubDate = Some 40, e_enclosure = None,
             e_duration = None, e_guid = Some ''four'', e_podcastIndexOrgId = 4,
             e_position = None, e_lastTimeListened = None, e_finished = None\<rparr>"
    using ry by (simp add: exampleEpisode_def)
  have a: "map (\<lambda>r. (fst r, e_title (snd r), e_pubDate (snd r), e_guid (snd r), e_position (snd r)))
        (toArray (episodes (snd (ctrl_updatePodcasts ?c exampleListened))))
      = [(1, Some ''one'', Some 10, Some ''one'', None),
         (2, Some ''two, revised'', Some 21, Some ''two, revised'', Some 120),
         (3, Some ''three'', Some 30, Some ''three'', None),
         (4, Some ''four'', Some 40, Some ''four'', None)]"
    by code_simp
  from updatePodcasts_merges_by_directory_id[OF wf_exampleListened, of ?c] m f x s
  obtain x' where lx: "lastWith ?R (pie_id ?x) = Some x'"
    and rx: "rows (episodes (snd (ctrl_updatePodcasts ?c exampleListened))) 2
      = Some (?v\<lparr>e_title := Some (pie_title x'), e_link := Some (pie_link x'),
                 e_description := Some (pie_description x'), e_pubDate := Some (pie_pubDate x'),
                 e_imageUrl := Some (pie_imageUrl x'), e_enclosure := pie_enclosure x',
                 e_guid := Some (pie_guid x'), e_podcastIndexOrgId := pie_id x'\<rparr>)"
    by blast
  from lx l have "x' = ?x" by simp
  with rx have "rows (episodes (snd (ctrl_updatePodcasts ?c exampleListened))) 2
      = Some \<lparr>e_podcastId = 1, e_title = Some ''two, revised'', e_link = Some ''https://example.com/ep'',
             e_description = Some ''text'', e_imageUrl = Some ''https://example.com/ep.png'',
             e_categories = None, e_pubDate = Some 21, e_enclosure = Some \<lparr>enc_url = ''https://example.com/ep.mp3'', enc_length = 1000, enc_type = ''audio/mpeg''\<rparr>,
             e_duration = None, e_guid = Some ''two, revised'', e_podcastIndexOrgId = 2,
             e_position = Some 120, e_lastTimeListened = Some 2000, e_finished = None\<rparr>"
    by (simp add: exampleEnclosed_def exampleEpisode_def)
  with wf_exampleListened r n a show ?thesis by blast
qed

text \<open>
  C2 as stated fails for a stored property that the payload does not specify. A podcast
  is added while the directory lists its episode with an enclosure; the directory then
  lists the episode without one. \<open>mapPodcastIndexOrgEpisodeToStorage\<close> gives the mapped
  object the property \<open>enclosure\<close> with the value \<open>undefined\<close>, and the overlay writes it
  over the stored enclosure.
\<close>

theorem updatePodcasts_erases_enclosure_counterexample:
  "rows (episodes enclosedDatabase) 1
     = Some \<lparr>e_podcastId = 1, e_title = Some ''one'', e_link = Some ''https://example.com/ep'',
            e_description = Some ''text'', e_imageUrl = Some ''https://example.com/ep.png'',
            e_categories = None, e_pubDate = Some 10, e_enclosure = Some \<lparr>enc_url = ''https://example.com/ep.mp3'', enc_length = 1000, enc_type = ''audio/mpeg''\<rparr>,
            e_duration = None, e_guid = Some ''one'', e_podcastIndexOrgId = 1,
            e_position = None, e_lastTimeListened = None, e_finished = None\<rparr>
   \<and> pie_enclosure (exampleEpisode 1 10 ''one'') = None
   \<and> rows (episodes (snd (ctrl_updatePodcasts (exampleClient [exampleEpisode 1 10 ''one''])
             enclosedDatabase))) 1
     = Some \<lparr>e_podcastId = 1, e_title = Some ''one'', e_link = Some ''https://example.com/ep'',
            e_description = Some ''text'', e_imageUrl = Some ''https://example.com/ep.png'',
            e_categories = None, e_pubDate = Some 10, e_enclosure = None,
            e_duration = None, e_guid = Some ''one'', e_podcastIndexOrgId = 1,
            e_position = None, e_lastTimeListened = None, e_finished = None\<rparr>"
  by code_simp

text \<open>
  C3, as amended. For a database that satisfies the invariant, a second \<open>updatePodcasts()\<close>
  against the same answers of the directory resolves and inserts no episode: the key
  generator and the keys of the stored episodes are as the first run left them, and each
  stored episode keeps its podcast and its directory id. When moreover no two stored
  episodes of one podcast have the same directory id, the second run leaves the database
  as the first one left it.
\<close>

theorem updatePodcasts_twice:
  assumes wf: "wf_database db"
  shows "fst (ctrl_updatePodcasts c (snd (ctrl_updatePodcasts c db))) = Inr ()
       \<and> nextKey (episodes (snd (ctrl_updatePodcasts c (snd (ctrl_updatePodcasts c db)))))
           = nextKey (episodes (snd (ctrl_updatePodcasts c db)))
       \<and> (\<forall>k. rows (episodes (snd (ctrl_updatePodcasts c (snd (ctrl_updatePodcasts c db))))) k = None
              \<longleftrightarrow> rows (episodes (snd (ctrl_updatePodcasts c db))) k = None)
       \<and> (\<forall>k v. rows (episodes (snd (ctrl_updatePodcasts c db))) k = Some v \<longrightarrow>
             (\<exists>v'. rows (episodes (snd (ctrl_updatePodcasts c (snd (ctrl_updatePodcasts c db))))) k = Some v'
                  \<and> e_podcastId v' = e_podcastId v
                  \<and> e_podcastIndexOrgId v' = e_podcastIndexOrgId v))
       \<and> (directoryIds_distinct db \<longrightarrow>
             ctrl_updatePodcasts c (snd (ctrl_updatePodcasts c db)) = ctrl_updatePodcasts c db)"
proof -
  let ?Ps = "store_getPodcasts db"
  let ?db1 = "snd (ctrl_updatePodcasts c db)"
  let ?db2 = "snd (ctrl_updatePodcasts c ?db1)"
  have db1: "?db1 = snd (updatePodcasts_loop c ?Ps db)" by (simp add: ctrl_updatePodcasts_def)
  from loop_invariants[OF wf subset_refl, of c]
  have pod: "podcasts ?db1 = podcasts db" and wf1: "wf_database ?db1" unfolding db1 by blast+
  then have Ps1: "store_getPodcasts ?db1 = ?Ps" by (simp add: store_getPodcasts_def)
  have db2: "?db2 = snd (updatePodcasts_loop c ?Ps ?db1)"
    by (subst (1) ctrl_updatePodcasts_def) (simp add: Ps1)
  have 1: "fst (ctrl_updatePodcasts c ?db1) = Inr ()" by (simp add: ctrl_updatePodcasts_def loop_resolves)
  have cov: "\<forall>p\<in>set ?Ps. covered c p ?db1"
    unfolding db1 by (rule loop_covers[OF wf subset_refl distinct_store_getPodcasts])
  have sub1: "set ?Ps \<subseteq> set (store_getPodcasts ?db1)" by (simp add: Ps1)
  from loop_covered_keys[OF wf1 sub1 cov]
  have 2: "nextKey (episodes ?db2) = nextKey (episodes ?db1)"
    and 3: "\<forall>k. rows (episodes ?db2) k = None \<longleftrightarrow> rows (episodes ?db1) k = None"
    unfolding db2 by blast+
  have 4: "\<forall>k v. rows (episodes ?db1) k = Some v \<longrightarrow>
             (\<exists>v'. rows (episodes ?db2) k = Some v' \<and> e_podcastId v' = e_podcastId v
                  \<and> e_podcastIndexOrgId v' = e_podcastIndexOrgId v)"
  proof (intro allI impI)
    fix k v assume row: "rows (episodes ?db1) k = Some v"
    from loop_rows_derived[OF wf1 sub1 row, of c] obtain v' where
      v': "rows (episodes ?db2) k = Some v'"
      and d: "v' = v \<or> (\<exists>P R x. (e_podcastId v, P) \<in> set ?Ps \<and> getEpisodes c (p_feedUrl P) = Inr R
                   \<and> x \<in> set R \<and> pie_id x = e_podcastIndexOrgId v
                   \<and> v' = snd (spreadOver (Some k, v) (mapped x)))"
      unfolding db2 by blast
    from d have "e_podcastId v' = e_podcastId v \<and> e_podcastIndexOrgId v' = e_podcastIndexOrgId v"
      by (auto simp: spreadOver_def mapPodcastIndexOrgEpisodeToStorage_def)
    with v' show "\<exists>v'. rows (episodes ?db2) k = Some v' \<and> e_podcastId v' = e_podcastId v
                  \<and> e_podcastIndexOrgId v' = e_podcastIndexOrgId v" by blast
  qed
  have 5: "directoryIds_distinct db \<longrightarrow> ctrl_updatePodcasts c ?db1 = ctrl_updatePodcasts c db"
    using loop_twice_distinct[OF wf] by blast
  from 1 2 3 4 5 show ?thesis by blast
qed

theorem updatePodcasts_twice_witness:
  "wf_database exampleDatabase2 \<and> directoryIds_distinct exampleDatabase2
   \<and> ctrl_updatePodcasts (exampleClient [exampleEpisode 2 21 ''two, revised'', exampleEpisode 4 40 ''four''])
        (snd (ctrl_updatePodcasts (exampleClient [exampleEpisode 2 21 ''two, revised'', exampleEpisode 4 40 ''four''])
           exampleDatabase2))
     = ctrl_updatePodcasts (exampleClient [exampleEpisode 2 21 ''two, revised'', exampleEpisode 4 40 ''four''])
         exampleDatabase2
   \<and> map fst (toArray (episodes (snd (ctrl_updatePodcasts
         (exampleClient [exampleEpisode 2 21 ''two, revised'', exampleEpisode 4 40 ''four''])
         exampleDatabase2)))) = [1, 2, 3, 4, 5, 6, 7]"
proof -
  from wf_exampleDatabase2 have "wf_table (episodes exampleDatabase2)" by (simp add: wf_database_def)
  moreover have "distinct (map (\<lambda>r. (e_podcastId (snd r), e_podcastIndexOrgId (snd r)))
                    (toArray (episodes exampleDatabase2)))"
    by code_simp
  ultimately have dd: "directoryIds_distinct exampleDatabase2"
    by (simp add: directoryIds_distinct_iff)
  have k: "map fst (toArray (episodes (snd (ctrl_updatePodcasts
         (exampleClient [exampleEpisode 2 21 ''two, revised'', exampleEpisode 4 40 ''four''])
         exampleDatabase2)))) = [1, 2, 3, 4, 5, 6, 7]"
    by code_simp
  from updatePodcasts_twice[OF wf_exampleDatabase2] wf_exampleDatabase2 dd k
  show ?thesis by blast
qed

text \<open>
  C3 as stated fails. A podcast is added while the directory lists two episodes under
  the id 5, published at 10 and at 20; the directory then lists one episode with the id
  5, published at 5. The first refresh overlays the stored episode published at 20, which
  comes first in \<open>getEpisodes\<close>; that puts the other stored episode first, and the second
  refresh overlays that one.
\<close>

theorem updatePodcasts_idempotent_counterexample:
  "map (\<lambda>r. (fst r, e_title (snd r), e_pubDate (snd r)))
     (store_getEpisodes 1 (snd (ctrl_updatePodcasts (exampleClient [exampleEpisode 5 5 ''C''])
        duplicateDatabase)))
     = [(1, Some ''A'', Some 10), (2, Some ''C'', Some 5)]
   \<and> map (\<lambda>r. (fst r, e_title (snd r), e_pubDate (snd r)))
     (store_getEpisodes 1 (snd (ctrl_updatePodcasts (exampleClient [exampleEpisode 5 5 ''C''])
        (snd (ctrl_updatePodcasts (exampleClient [exampleEpisode 5 5 ''C'']) duplicateDatabase)))))
     = [(2, Some ''C'', Some 5), (1, Some ''C'', Some 5)]
   \<and> store_getEpisodes 1 (snd (ctrl_updatePodcasts (exampleClient [exampleEpisode 5 5 ''C''])
        (snd (ctrl_updatePodcasts (exampleClient [exampleEpisode 5 5 ''C'']) duplicateDatabase))))
     \<noteq> store_getEpisodes 1 (snd (ctrl_updatePodcasts (exampleClient [exampleEpisode 5 5 ''C''])
        duplicateDatabase))"
  by code_simp

text \<open>
  C4. When the fetch of the episodes fails for a stored podcast, \<open>updatePodcasts()\<close> still
  resolves, the stored episodes of that podcast are as before, and the outcome is that of
  the loop over the podcasts whose fetch succeeds, in their order.
\<close>

theorem updatePodcasts_skips_failed_fetch:
  assumes wf: "wf_database db" and mem: "(pid, P) \<in> set (store_getPodcasts db)"
    and fail: "getEpisodes c (p_feedUrl P) = Inl err"
  shows "fst (ctrl_updatePodcasts c db) = Inr ()
       \<and> store_getEpisodes pid (snd (ctrl_updatePodcasts c db)) = store_getEpisodes pid db
       \<and> (\<forall>k v. e_podcastId v = pid \<longrightarrow>
             (rows (episodes (snd (ctrl_updatePodcasts c db))) k = Some v \<longleftrightarrow> rows (episodes db) k = Some v))
       \<and> ctrl_updatePodcasts c db = updatePodcasts_loop c (filter (fetched c) (store_getPodcasts db)) db
       \<and> podcasts (snd (ctrl_updatePodcasts c db)) = podcasts db"
proof -
  let ?Ps = "store_getPodcasts db"
  have nf: "\<forall>p\<in>set ?Ps. fst p \<noteq> pid \<or> \<not> fetched c p"
  proof
    fix p assume p: "p \<in> set ?Ps"
    show "fst p \<noteq> pid \<or> \<not> fetched c p"
    proof (cases "fst p = pid")
      case True
      with p have "(pid, snd p) \<in> set ?Ps" by (metis prod.collapse)
      from same_key_same_podcast[OF mem this] fail show ?thesis by (simp add: fetched_def)
    qed simp
  qed
  from loop_frame[OF wf subset_refl nf]
  have fr: "storedEpisodesOf pid (snd (ctrl_updatePodcasts c db)) = storedEpisodesOf pid db"
    "\<forall>k v. e_podcastId v = pid \<longrightarrow>
       (rows (episodes (snd (ctrl_updatePodcasts c db))) k = Some v \<longleftrightarrow> rows (episodes db) k = Some v)"
    unfolding ctrl_updatePodcasts_def by blast+
  have 1: "fst (ctrl_updatePodcasts c db) = Inr ()" by (simp add: ctrl_updatePodcasts_def loop_resolves)
  have 2: "store_getEpisodes pid (snd (ctrl_updatePodcasts c db)) = store_getEpisodes pid db"
    by (rule store_getEpisodes_of_stored[OF fr(1)])
  have 4: "ctrl_updatePodcasts c db = updatePodcasts_loop c (filter (fetched c) ?Ps) db"
    unfolding ctrl_updatePodcasts_def by (rule loop_skips_failed)
  have 5: "podcasts (snd (ctrl_updatePodcasts c db)) = podcasts db"
    using loop_invariants[OF wf subset_refl, of c] by (simp add: ctrl_updatePodcasts_def)
  from 1 2 fr(2) 4 5 show ?thesis by blast
qed

theorem updatePodcasts_skips_failed_fetch_witness:
  "wf_database exampleDatabase2
   \<and> (1, the (rows (podcasts exampleDatabase2) 1)) \<in> set (store_getPodcasts exampleDatabase2)
   \<and> getEpisodes exampleFailingClient (p_feedUrl (the (rows (podcasts exampleDatabase2) 1))) = Inl FetchError
   \<and> fst (ctrl_updatePodcasts exampleFailingClient exampleDatabase2) = Inr ()
   \<and> store_getEpisodes 1 (snd (ctrl_updatePodcasts exampleFailingClient exampleDatabase2))
        = store_getEpisodes 1 exampleDatabase2
   \<and> map (\<lambda>r. (fst r, e_title (snd r)))
        (store_getEpisodes 2 (snd (ctrl_updatePodcasts exampleFailingClient exampleDatabase2)))
        = [(6, Some ''nove''), (5, Some ''due bis''), (4, Some ''uno'')]"
proof -
  have m: "(1, the (rows (podcasts exampleDatabase2) 1)) \<in> set (store_getPodcasts exampleDatabase2)"
    by code_simp
  have f: "getEpisodes exampleFailingClient (p_feedUrl (the (rows (podcasts exampleDatabase2) 1))) = Inl FetchError"
    by code_simp
  have o: "map (\<lambda>r. (fst r, e_title (snd r)))
        (store_getEpisodes 2 (snd (ctrl_updatePodcasts exampleFailingClient exampleDatabase2)))
        = [(6, Some ''nove''), (5, Some ''due bis''), (4, Some ''uno'')]"
    by code_simp
  from updatePodcasts_skips_failed_fetch[OF wf_exampleDatabase2 m f] wf_exampleDatabase2 m f o
  show ?thesis by blast
qed

text \<open>
  C5. When \<open>addPodcast\<close> of the store has inserted a podcast, a second \<open>addPodcast\<close> with
  the same feed URL is rejected with a \<open>ConstraintError\<close>, leaves the database as it was,
  and the first podcast is the only stored one with that feed URL.
\<close>

theorem addPodcast_duplicate_feedUrl_rejected:
  assumes wf: "wf_table (podcasts db)"
    and ok: "store_addPodcast podcast db = (Inr k, db1)"
    and same: "p_feedUrl (snd podcast2) = p_feedUrl (snd podcast)"
  shows "store_addPodcast podcast2 db1 = (Inl ConstraintError, db1)
       \<and> filter (\<lambda>r. p_feedUrl (snd r) = p_feedUrl (snd podcast)) (store_getPodcasts db1)
           = [(k, snd podcast)]"
proof -
  let ?t = "podcasts db"
  let ?u = "p_feedUrl (snd podcast)"
  from ok have db1: "db1 = db\<lparr>podcasts := table_store k (snd podcast) ?t\<rparr>"
    and nofeed: "\<not> list_ex (\<lambda>r. p_feedUrl (snd r) = ?u) (toArray ?t)"
    unfolding store_addPodcast_def Let_def
    by (auto split: if_splits option.splits)
  have vis: "k < nextKey (podcasts db1)" "rows (podcasts db1) k = Some (snd podcast)"
    by (simp_all add: db1 table_store_def)
  then have "list_ex (\<lambda>r. p_feedUrl (snd r) = p_feedUrl (snd podcast2)) (toArray (podcasts db1))"
    unfolding list_ex_toArray using same by auto
  then have 1: "store_addPodcast podcast2 db1 = (Inl ConstraintError, db1)"
    by (simp add: store_addPodcast_def Let_def)
  have only: "\<forall>k' r'. k' < nextKey (podcasts db1) \<and> rows (podcasts db1) k' = Some r'
                 \<and> p_feedUrl (snd (k', r')) = ?u \<longrightarrow> k' = k"
  proof (intro allI impI, elim conjE, rule ccontr)
    fix k' r'
    assume a: "k' < nextKey (podcasts db1)" "rows (podcasts db1) k' = Some r'"
      "p_feedUrl (snd (k', r')) = ?u" "k' \<noteq> k"
    then have r: "rows ?t k' = Some r'" by (simp add: db1 table_store_def)
    with wf have "k' < nextKey ?t" unfolding wf_table_def by (metis not_le option.distinct(1))
    with r a(3) nofeed show False unfolding list_ex_toArray by auto
  qed
  have 2: "filter (\<lambda>r. p_feedUrl (snd r) = ?u) (store_getPodcasts db1) = [(k, snd podcast)]"
    unfolding store_getPodcasts_def
    by (rule filter_toArray_single[OF vis _ only]) simp
  from 1 2 show ?thesis by simp
qed

theorem addPodcast_duplicate_feedUrl_rejected_witness:
  "wf_table (podcasts newDatabase)
   \<and> fst (store_addPodcast (None, exampleStoredPodcast) newDatabase) = Inr 1
   \<and> store_addPodcast (None, exampleStoredPodcast\<lparr>p_subscribed := False\<rparr>)
        (snd (store_addPodcast (None, exampleStoredPodcast) newDatabase))
      = (Inl ConstraintError, snd (store_addPodcast (None, exampleStoredPodcast) newDatabase))"
proof -
  have w: "wf_table (podcasts newDatabase)"
    by (simp add: wf_table_def newDatabase_def emptyTable_def)
  have a': "fst (store_addPodcast (None, exampleStoredPodcast) newDatabase) = Inr 1"
    by (simp add: store_addPodcast_def newDatabase_def emptyTable_def toArray_def List.map_filter_def Let_def)
  have a: "store_addPodcast (None, exampleStoredPodcast) newDatabase
             = (Inr 1, snd (store_addPodcast (None, exampleStoredPodcast) newDatabase))"
    by (rule prod_eqI) (simp_all add: a')
  have s: "p_feedUrl (snd (None :: nat option, exampleStoredPodcast\<lparr>p_subscribed := False\<rparr>))
             = p_feedUrl (snd (None :: nat option, exampleStoredPodcast))"
    by simp
  from addPodcast_duplicate_feedUrl_rejected[OF w a s] w a' show ?thesis by blast
qed

text \<open>
  C6. When both fetches from the directory succeed and no stored podcast has the feed
  URL yet, the controller's \<open>addPodcast\<close> resolves, and afterwards \<open>getPodcast\<close> of that
  feed URL returns a podcast with status \<open>processed\<close> whose
  \<open>podcastIndexOrgLastEpisodeFetch\<close> is set (to the time of the call).
\<close>

theorem addPodcast_marks_processed:
  assumes pm: "getPodcastByFeedUrl client (a_feedUrl podcast) = Inr podcastAtPodcastindexOrg"
    and eps: "getEpisodes client (a_feedUrl podcast) = Inr eps"
    and fresh: "\<forall>r \<in> set (store_getPodcasts db). p_feedUrl (snd r) \<noteq> a_feedUrl podcast"
  shows "\<exists>db' r. ctrl_addPodcast now client podcast db = (Inr (), db')
           \<and> ctrl_getPodcast (a_feedUrl podcast) db' = Some r
           \<and> p_feedUrl (snd r) = a_feedUrl podcast
           \<and> p_status (snd r) = Processed
           \<and> p_podcastIndexOrgLastEpisodeFetch (snd r) = Some now"
proof -
  let ?u = "a_feedUrl podcast"
  let ?p0 = "\<lparr>p_status = New, p_feedUrl = ?u, p_alternateFeedUrls = None, p_lastBuildDate = None,
               p_lastItemPubDate = None, p_firstItemPubDate = None, p_title = a_title podcast,
               p_description = a_description podcast, p_link = None, p_imageUrl = a_imageUrl podcast,
               p_subscribed = a_subscribed podcast, p_podcastIndexOrgId = a_podcastIndexOrgId podcast,
               p_podcastIndexOrgLastEpisodeFetch = None, p_value = None\<rparr>"
  define k where "k = nextKey (podcasts db)"
  define db1 where "db1 = db\<lparr>podcasts := table_store k ?p0 (podcasts db)\<rparr>"
  let ?c1 = "(noPodcastChanges k)
                \<lparr>pc_title := Some (pip_title podcastAtPodcastindexOrg),
                 pc_description := Some (pip_description podcastAtPodcastindexOrg),
                 pc_link := Some (pip_link podcastAtPodcastindexOrg),
                 pc_imageUrl := Some (pip_imageUrl podcastAtPodcastindexOrg),
                 pc_podcastIndexOrgId := Some (pip_id podcastAtPodcastindexOrg),
                 pc_value := (case pip_value podcastAtPodcastindexOrg of
                                None \<Rightarrow> None | Some v \<Rightarrow> Some [v])\<rparr>"
  define p1 where "p1 = applyPodcastChanges ?c1 ?p0"
  define db2 where "db2 = db1\<lparr>podcasts := (podcasts db1)\<lparr>rows := (rows (podcasts db1))(k \<mapsto> p1)\<rparr>\<rparr>"
  let ?new = "map (\<lambda>episode. withPodcastId (mapPodcastIndexOrgEpisodeToStorage episode) k) eps"
  define db3 where "db3 = store_putEpisodes ?new db2"
  let ?c2 = "(noPodcastChanges k)\<lparr>pc_status := Some Processed, pc_podcastIndexOrgLastEpisodeFetch := Some now\<rparr>"
  define p2 where "p2 = applyPodcastChanges ?c2 p1"
  define db4 where "db4 = db3\<lparr>podcasts := (podcasts db3)\<lparr>rows := (rows (podcasts db3))(k \<mapsto> p2)\<rparr>\<rparr>"
  have nofeed: "\<not> list_ex (\<lambda>r. p_feedUrl (snd r) = ?u) (toArray (podcasts db))"
    using fresh by (simp add: list_ex_iff store_getPodcasts_def)
  have s1: "store_addPodcast (None, ?p0) db = (Inr k, db1)"
    using nofeed by (simp add: store_addPodcast_def Let_def k_def db1_def)
  have id1: "pc_id ?c1 = k" "pc_feedUrl ?c1 = None" by (simp_all add: noPodcastChanges_def)
  have id2: "pc_id ?c2 = k" "pc_feedUrl ?c2 = None" by (simp_all add: noPodcastChanges_def)
  have u1: "p_feedUrl p1 = ?u" by (simp add: p1_def applyPodcastChanges_def id1)
  have u2: "p_feedUrl p2 = ?u" by (simp add: p2_def applyPodcastChanges_def id2 u1)
  have o1: "only_url (podcasts db1) k ?u"
    using nofeed unfolding list_ex_toArray only_url_def db1_def k_def
    by (auto simp: table_store_def less_Suc_eq split: if_splits)
  have r1: "rows (podcasts db1) k = Some ?p0" by (simp add: db1_def table_store_def)
  have s2: "store_updatePodcast ?c1 db1 = (Inr (), db2)"
    unfolding db2_def p1_def
    by (rule store_updatePodcast_ok[OF id1(1) r1 id1(2)]) (use o1 in simp)
  have p3: "podcasts db3 = podcasts db2" by (simp add: db3_def store_putEpisodes_def)
  have r3: "rows (podcasts db3) k = Some p1" unfolding p3 by (simp add: db2_def)
  have o2: "only_url (podcasts db2) k ?u"
    unfolding db2_def using only_url_update[OF o1, of p1] by simp
  have o3: "only_url (podcasts db3) k ?u" unfolding p3 by (rule o2)
  have s4: "store_updatePodcast ?c2 db3 = (Inr (), db4)"
    unfolding db4_def p2_def
    by (rule store_updatePodcast_ok[OF id2(1) r3 id2(2)]) (use o3 u1 in simp)
  have run: "ctrl_addPodcast now client podcast db = (Inr (), db4)"
    unfolding ctrl_addPodcast_def by (simp add: s1 pm eps s2 s4 Let_def db3_def[symmetric])
  have o4: "only_url (podcasts db4) k ?u"
    unfolding db4_def using only_url_update[OF o3, of p2] by simp
  have k4: "k < nextKey (podcasts db4)"
    by (simp add: db4_def p3 db2_def db1_def table_store_def)
  have r4: "rows (podcasts db4) k = Some p2" by (simp add: db4_def)
  have "filter (\<lambda>r. p_feedUrl (snd r) = ?u) (toArray (podcasts db4)) = [(k, p2)]"
    by (rule filter_toArray_single[OF k4 r4]) (use u2 o4 in \<open>auto simp: only_url_def\<close>)
  then have get: "ctrl_getPodcast ?u db4 = Some (k, p2)"
    by (simp add: ctrl_getPodcast_def store_getPodcast_eq)
  have st: "p_status p2 = Processed" "p_podcastIndexOrgLastEpisodeFetch p2 = Some now"
    by (simp_all add: p2_def applyPodcastChanges_def noPodcastChanges_def)
  from run get u2 st show ?thesis by (intro exI[of _ db4] exI[of _ "(k, p2)"]) simp
qed

theorem addPodcast_marks_processed_witness:
  "\<exists>db' r. ctrl_addPodcast 1000 (exampleClient [exampleEpisode 1 10 ''one''])
              (examplePodcast ''https://example.com/feed.xml'') newDatabase = (Inr (), db')
         \<and> ctrl_getPodcast ''https://example.com/feed.xml'' db' = Some r
         \<and> p_status (snd r) = Processed
         \<and> p_podcastIndexOrgLastEpisodeFetch (snd r) = Some 1000"
proof -
  let ?c = "exampleClient [exampleEpisode 1 10 ''one'']"
  let ?p = "examplePodcast ''https://example.com/feed.xml''"
  have 1: "getPodcastByFeedUrl ?c (a_feedUrl ?p) = Inr \<lparr>pip_id = 7, pip_title = ''Example'', pip_description = ''text'',
                                            pip_link = ''https://example.com'',
                                            pip_imageUrl = ''https://example.com/p.png'', pip_value = None\<rparr>"
    by (simp add: exampleClient_def)
  have 2: "getEpisodes ?c (a_feedUrl ?p) = Inr [exampleEpisode 1 10 ''one'']"
    by (simp add: exampleClient_def)
  have 3: "\<forall>r \<in> set (store_getPodcasts newDatabase). p_feedUrl (snd r) \<noteq> a_feedUrl ?p"
    by (simp add: store_getPodcasts_def newDatabase_def emptyTable_def toArray_def List.map_filter_def)
  have u: "a_feedUrl ?p = ''https://example.com/feed.xml''" by (simp add: examplePodcast_def)
  from addPodcast_marks_processed[OF 1 2 3, of 1000, unfolded u] show ?thesis by blast
qed

text \<open>
  C7. After \<open>deletePodcastById(id)\<close>, \<open>getPodcastById(id)\<close> is undefined, the store's
  \<open>getEpisodes(id)\<close> is empty, no stored episode has that \<open>podcastId\<close>, and the controller's
  \<open>getEpisodes\<close> returns no episode of that podcast for any feed URL. Episodes of other
  podcasts and the other podcasts stay as they were.
\<close>

theorem deletePodcastById_removes_podcast_and_episodes:
  "ctrl_getPodcastById podcastId (ctrl_deletePodcastById podcastId db) = None
   \<and> store_getEpisodes podcastId (ctrl_deletePodcastById podcastId db) = []
   \<and> (\<forall>k e. rows (episodes (ctrl_deletePodcastById podcastId db)) k = Some e \<longrightarrow> e_podcastId e \<noteq> podcastId)
   \<and> (\<forall>feedUrl. \<forall>r \<in> set (ctrl_getEpisodes feedUrl (ctrl_deletePodcastById podcastId db)).
          e_podcastId (snd r) \<noteq> podcastId)
   \<and> (\<forall>k e. rows (episodes db) k = Some e \<and> e_podcastId e \<noteq> podcastId
          \<longrightarrow> rows (episodes (ctrl_deletePodcastById podcastId db)) k = Some e)
   \<and> (\<forall>k. k \<noteq> podcastId
          \<longrightarrow> rows (podcasts (ctrl_deletePodcastById podcastId db)) k = rows (podcasts db) k)"
proof -
  let ?db = "ctrl_deletePodcastById podcastId db"
  have ep: "rows (episodes ?db) = (\<lambda>k. case rows (episodes db) k of None \<Rightarrow> None
              | Some r \<Rightarrow> if e_podcastId r = podcastId then None else Some r)"
    by (simp add: ctrl_deletePodcastById_def store_deletePodcastById_def Let_def delete_where_def table_delete_def)
  have po: "rows (podcasts ?db) = (rows (podcasts db))(podcastId := None)"
    by (simp add: ctrl_deletePodcastById_def store_deletePodcastById_def Let_def delete_where_def table_delete_def)
  have none: "\<forall>k e. rows (episodes ?db) k = Some e \<longrightarrow> e_podcastId e \<noteq> podcastId"
    unfolding ep by (auto split: option.splits if_splits)
  have c1: "ctrl_getPodcastById podcastId ?db = None"
    by (simp add: ctrl_getPodcastById_def store_getPodcastById_def po)
  have c2: "store_getEpisodes podcastId ?db = []"
  proof (rule ccontr)
    assume "store_getEpisodes podcastId ?db \<noteq> []"
    then obtain x where "x \<in> set (store_getEpisodes podcastId ?db)"
      by (meson last_in_set)
    moreover obtain k e where "x = (k, e)" by (cases x)
    ultimately have "rows (episodes ?db) k = Some e" "e_podcastId e = podcastId"
      by (simp_all add: store_getEpisodes_iff)
    with none show False by blast
  qed
  have c4: "\<forall>feedUrl. \<forall>r \<in> set (ctrl_getEpisodes feedUrl ?db). e_podcastId (snd r) \<noteq> podcastId"
  proof (intro allI ballI)
    fix feedUrl r assume r: "r \<in> set (ctrl_getEpisodes feedUrl ?db)"
    then obtain q k where "(k, snd r) \<in> set (store_getEpisodes q ?db)"
      by (auto simp: ctrl_getEpisodes_def split: option.splits)
    then have "rows (episodes ?db) k = Some (snd r)" by (simp add: store_getEpisodes_iff)
    with none show "e_podcastId (snd r) \<noteq> podcastId" by blast
  qed
  have c5: "\<forall>k e. rows (episodes db) k = Some e \<and> e_podcastId e \<noteq> podcastId
          \<longrightarrow> rows (episodes ?db) k = Some e"
    unfolding ep by simp
  have c6: "\<forall>k. k \<noteq> podcastId \<longrightarrow> rows (podcasts ?db) k = rows (podcasts db) k"
    unfolding po by simp
  from c1 c2 none c4 c5 c6 show ?thesis by blast
qed

theorem deletePodcastById_removes_podcast_and_episodes_witness:
  "map fst (store_getEpisodes 1 exampleDatabase2) = [3, 2, 1]
   \<and> ctrl_getPodcastById 1 (ctrl_deletePodcastById 1 exampleDatabase2) = None
   \<and> store_getEpisodes 1 (ctrl_deletePodcastById 1 exampleDatabase2) = []
   \<and> map fst (store_getEpisodes 2 (ctrl_deletePodcastById 1 exampleDatabase2)) = [5, 4]"
proof -
  have a: "map fst (store_getEpisodes 1 exampleDatabase2) = [3, 2, 1]" by code_simp
  have b: "map fst (store_getEpisodes 2 (ctrl_deletePodcastById 1 exampleDatabase2)) = [5, 4]" by code_simp
  from deletePodcastById_removes_podcast_and_episodes[of 1 exampleDatabase2] a b show ?thesis by simp
qed

text \<open>
  C8. \<open>getAllEpisodes(count, asOfPubDate)\<close> returns at most \<open>count\<close> episodes, each with a
  publish date at most \<open>asOfPubDate\<close>, in descending order of the publish date. The
  controller returns the episodes of the store, each joined to its podcast, and every one
  of them is a stored episode.
\<close>

theorem getAllEpisodes_bounded_filtered_sorted:
  "length (ctrl_getAllEpisodes count asOfPubDate db) \<le> count
   \<and> (\<forall>x \<in> set (ctrl_getAllEpisodes count asOfPubDate db).
        \<exists>d. e_pubDate (snd (fst x)) = Some d \<and> d \<le> asOfPubDate)
   \<and> sorted_wrt (\<lambda>a b. the (e_pubDate (snd (fst b))) \<le> the (e_pubDate (snd (fst a))))
        (ctrl_getAllEpisodes count asOfPubDate db)
   \<and> map fst (ctrl_getAllEpisodes count asOfPubDate db) = store_getAllEpisodes count asOfPubDate db
   \<and> set (store_getAllEpisodes count asOfPubDate db) \<subseteq> set (toArray (episodes db))"
proof -
  let ?s = "store_getAllEpisodes count asOfPubDate db"
  have m: "map fst (ctrl_getAllEpisodes count asOfPubDate db) = ?s"
    by (simp add: ctrl_getAllEpisodes_def Let_def addPodcastToEpisodes_def comp_def)
  have l: "length ?s \<le> count" by (simp add: store_getAllEpisodes_eq)
  have f: "\<forall>r \<in> set ?s. \<exists>d. e_pubDate (snd r) = Some d \<and> d \<le> asOfPubDate"
  proof
    fix r assume "r \<in> set ?s"
    then have "r \<in> set (filter (\<lambda>r. the (e_pubDate (snd r)) \<le> asOfPubDate) (index_rows e_pubDate (episodes db)))"
      unfolding store_getAllEpisodes_eq by (meson in_set_takeD set_rev[THEN equalityD1, THEN subsetD])
    then have "the (e_pubDate (snd r)) \<le> asOfPubDate" "r \<in> set (index_rows e_pubDate (episodes db))" by simp_all
    then show "\<exists>d. e_pubDate (snd r) = Some d \<and> d \<le> asOfPubDate"
      by (cases r) (auto simp: index_rows_iff)
  qed
  have s: "sorted_wrt (\<lambda>a b. the (e_pubDate (snd b)) \<le> the (e_pubDate (snd a))) ?s"
    unfolding store_getAllEpisodes_eq
    by (rule sorted_desc_take_rev_filter) (rule index_rows_sorted)
  have sub: "set ?s \<subseteq> set (toArray (episodes db))"
  proof
    fix r assume "r \<in> set ?s"
    then have "r \<in> set (index_rows e_pubDate (episodes db))"
      unfolding store_getAllEpisodes_eq using in_set_takeD by fastforce
    then show "r \<in> set (toArray (episodes db))" by (simp add: index_rows_def)
  qed
  have l': "length (ctrl_getAllEpisodes count asOfPubDate db) \<le> count"
    using l m by (metis length_map)
  have f': "\<forall>x \<in> set (ctrl_getAllEpisodes count asOfPubDate db).
        \<exists>d. e_pubDate (snd (fst x)) = Some d \<and> d \<le> asOfPubDate"
  proof
    fix x assume "x \<in> set (ctrl_getAllEpisodes count asOfPubDate db)"
    then have "fst x \<in> set ?s" unfolding m[symmetric] by simp
    with f show "\<exists>d. e_pubDate (snd (fst x)) = Some d \<and> d \<le> asOfPubDate" by blast
  qed
  have s': "sorted_wrt (\<lambda>a b. the (e_pubDate (snd (fst b))) \<le> the (e_pubDate (snd (fst a))))
        (ctrl_getAllEpisodes count asOfPubDate db)"
    using s unfolding m[symmetric] by (simp add: sorted_wrt_map)
  from l' f' s' m sub show ?thesis by blast
qed

theorem getAllEpisodes_bounded_filtered_sorted_witness:
  "map (\<lambda>x. (fst (fst x), e_pubDate (snd (fst x)))) (ctrl_getAllEpisodes 2 25 exampleDatabase2)
     = [(5, Some 25), (2, Some 20)]
   \<and> length (ctrl_getAllEpisodes 2 25 exampleDatabase2) \<le> 2
   \<and> sorted_wrt (\<lambda>a b. the (e_pubDate (snd (fst b))) \<le> the (e_pubDate (snd (fst a))))
        (ctrl_getAllEpisodes 2 25 exampleDatabase2)"
proof -
  have a: "map (\<lambda>x. (fst (fst x), e_pubDate (snd (fst x)))) (ctrl_getAllEpisodes 2 25 exampleDatabase2)
             = [(5, Some 25), (2, Some 20)]"
    by code_simp
  from getAllEpisodes_bounded_filtered_sorted[of 2 25 exampleDatabase2] a show ?thesis by blast
qed

text \<open>
  C9. Once \<open>updateEpisodeCurrentTime(id, position)\<close> has taken effect on a stored episode,
  with a position of at least 0 such as 120, the episode has that position and the time of
  the call as \<open>lastTimeListened\<close>, its other properties are unchanged, \<open>getEpisodes\<close> of
  its podcast returns it so, and it is among the episodes of \<open>getEpisodesInProgress()\<close>. No
  other episode and no podcast changes.
\<close>

theorem updateEpisodeCurrentTime_sets_position:
  assumes "(episodeId, e) \<in> set (toArray (episodes db))" and "0 \<le> position"
  shows "rows (episodes (ctrl_updateEpisodeCurrentTime now episodeId position db)) episodeId
           = Some (e\<lparr>e_position := Some position, e_lastTimeListened := Some now\<rparr>)
       \<and> (episodeId, e\<lparr>e_position := Some position, e_lastTimeListened := Some now\<rparr>)
           \<in> set (store_getEpisodes (e_podcastId e) (ctrl_updateEpisodeCurrentTime now episodeId position db))
       \<and> (episodeId, e\<lparr>e_position := Some position, e_lastTimeListened := Some now\<rparr>)
           \<in> fst ` set (ctrl_getEpisodesInProgress (ctrl_updateEpisodeCurrentTime now episodeId position db))
       \<and> (\<forall>k. k \<noteq> episodeId \<longrightarrow>
             rows (episodes (ctrl_updateEpisodeCurrentTime now episodeId position db)) k = rows (episodes db) k)
       \<and> podcasts (ctrl_updateEpisodeCurrentTime now episodeId position db) = podcasts db"
proof -
  let ?db = "ctrl_updateEpisodeCurrentTime now episodeId position db"
  let ?e = "e\<lparr>e_position := Some position, e_lastTimeListened := Some now\<rparr>"
  from assms(1) have k: "episodeId < nextKey (episodes db)" and r: "rows (episodes db) episodeId = Some e"
    by (simp_all add: toArray_iff)
  have db': "?db = db\<lparr>episodes := (episodes db)\<lparr>rows := (rows (episodes db))(episodeId \<mapsto> ?e)\<rparr>\<rparr>"
    using r by (simp add: ctrl_updateEpisodeCurrentTime_def store_updateEpisode_def Let_def
        applyEpisodeChanges_currentTime ec_id_noEpisodeChanges)
  have 1: "rows (episodes ?db) episodeId = Some ?e" by (simp add: db')
  have n: "nextKey (episodes ?db) = nextKey (episodes db)" by (simp add: db')
  have 2: "(episodeId, ?e) \<in> set (store_getEpisodes (e_podcastId e) ?db)"
    unfolding store_getEpisodes_iff using 1 n k by simp
  have "(episodeId, ?e) \<in> set (store_getEpisodesInProgress ?db)"
    unfolding store_getEpisodesInProgress_iff using 1 n k assms(2) by simp
  then have 3: "(episodeId, ?e) \<in> fst ` set (ctrl_getEpisodesInProgress ?db)"
    unfolding ctrl_getEpisodesInProgress_def Let_def
    by (metis map_fst_addPodcastToEpisodes set_map)
  have 4: "\<forall>k. k \<noteq> episodeId \<longrightarrow> rows (episodes ?db) k = rows (episodes db) k" by (simp add: db')
  have 5: "podcasts ?db = podcasts db" by (simp add: db')
  from 1 2 3 4 5 show ?thesis by blast
qed

theorem updateEpisodeCurrentTime_sets_position_witness:
  "(2, the (rows (episodes exampleDatabase) 2)) \<in> set (toArray (episodes exampleDatabase))
   \<and> e_position (the (rows (episodes exampleDatabase) 2)) = None
   \<and> map_option e_position (rows (episodes (ctrl_updateEpisodeCurrentTime 2000 2 120 exampleDatabase)) 2)
        = Some (Some 120)
   \<and> 2 \<in> (\<lambda>x. fst (fst x)) ` set (ctrl_getEpisodesInProgress (ctrl_updateEpisodeCurrentTime 2000 2 120 exampleDatabase))"
proof -
  have a: "(2, the (rows (episodes exampleDatabase) 2)) \<in> set (toArray (episodes exampleDatabase))"
    by code_simp
  have b: "e_position (the (rows (episodes exampleDatabase) 2)) = None" by code_simp
  have c: "(0::real) \<le> 120" by simp
  let ?e = "(the (rows (episodes exampleDatabase) 2))\<lparr>e_position := Some 120, e_lastTimeListened := Some 2000\<rparr>"
  let ?db = "ctrl_updateEpisodeCurrentTime 2000 2 120 exampleDatabase"
  from updateEpisodeCurrentTime_sets_position[OF a c, of 2000]
  have r: "rows (episodes ?db) 2 = Some ?e"
    and i: "(2, ?e) \<in> fst ` set (ctrl_getEpisodesInProgress ?db)"
    by blast+
  from r have r': "map_option e_position (rows (episodes ?db) 2) = Some (Some 120)" by simp
  from i have "fst (2, ?e) \<in> fst ` fst ` set (ctrl_getEpisodesInProgress ?db)" by (rule imageI)
  then have i': "2 \<in> (\<lambda>x. fst (fst x)) ` set (ctrl_getEpisodesInProgress ?db)"
    by (simp add: image_image)
  from a b r' i' show ?thesis by blast
qed

end
